theory Spec2Isabelle
  imports Main "HOL-Library.Word"
begin

unbundle bit_operations_syntax

section \<open>Pixels and the raster\<close>

text \<open>
  \<^verbatim>\<open>shmif_pixel\<close> is a 32-bit word of four bytes, one byte per channel. Sizes and
  offsets (\<^verbatim>\<open>size_t\<close>, \<^verbatim>\<open>uint64_t\<close>) are natural numbers below \<open>2 ^ 64\<close>. The products
  \<open>w * h\<close>, \<open>h * pitch\<close> and \<open>step_sz * w\<close> are bounded by the size of the raster in
  memory and by the file length. The 64-bit wrap-around is written out where a value that
  comes from outside is multiplied or converted: the raster index and the pointer that
  \<^verbatim>\<open>update_region\<close> computes from an offset, and the signed coordinates of
  \<open>control_event\<close>.
\<close>

type_synonym pixel = "32 word"
type_synonym byte = "8 word"

text \<open>
  Modelled from the spec: the packing macro \<^verbatim>\<open>SHMIF_RGBA\<close> comes from
  \<^verbatim>\<open>arcan_shmif.h\<close>, which is not part of the sources. The spec only says that a pixel
  is RGBA; one byte per channel with alpha in the top byte is taken here, and no theorem
  below depends on the order of the channels.
\<close>

definition SHMIF_RGBA :: "byte \<Rightarrow> byte \<Rightarrow> byte \<Rightarrow> byte \<Rightarrow> pixel" where
  "SHMIF_RGBA r g b a =
     push_bit 24 (ucast a) OR push_bit 16 (ucast r) OR push_bit 8 (ucast g) OR ucast b"

text \<open>
  The fields of \<^verbatim>\<open>struct arcan_shmif_cont\<close> that the code reads. \<open>vidp_addr\<close> is the
  byte address the pointer \<^verbatim>\<open>vidp\<close> holds, and \<open>vidp\<close> is the memory seen through it,
  by pixel slot: slot \<open>k\<close>, below \<open>2 ^ 62\<close>, is the pixel at the address
  \<open>vidp_addr + 4 * k\<close> modulo \<open>2 ^ 64\<close>. The raster is the slots below \<open>w * h\<close>, the
  slots after it are the memory that follows the raster, and the slots whose address
  wraps are the memory before it.
\<close>

record shmif_cont =
  w :: nat
  h :: nat
  pitch :: nat
  vidp_addr :: nat
  vidp :: "nat \<Rightarrow> pixel"

text \<open>
  \<^verbatim>\<open>&vidp[idx]\<close> for a \<^verbatim>\<open>size_t\<close> index: the index is taken modulo \<open>2 ^ 64\<close>, and
  four times the index is added to the address modulo \<open>2 ^ 64\<close>, so the pointer
  addresses the slot \<open>idx mod 2 ^ 62\<close>.
\<close>

definition px_slot :: "nat \<Rightarrow> nat" where
  "px_slot idx = (idx mod 2 ^ 64) mod 2 ^ 62"

definition px_addr :: "nat \<Rightarrow> nat \<Rightarrow> nat" where
  "px_addr base idx = (base + 4 * idx) mod 2 ^ 64"

text \<open>The tracking fields of \<^verbatim>\<open>struct data_window\<close>.\<close>

record data_window =
  last_pos :: nat
  last_pos_sz :: nat
  last_count_px :: nat
  last_coord0 :: nat
  last_coord1 :: nat

datatype fault = DivByZero | OutOfBounds nat

section \<open>update_region\<close>

text \<open>
  \<^verbatim>\<open>while (np-- && dst < endm) *dst++ op= c;\<close> with \<open>f\<close> the update of one pixel.
  \<open>dst\<close> is the slot the pointer addresses and \<open>endm\<close> the index \<open>h * pitch\<close> of
  \<^verbatim>\<open>&vidp[h * pitch]\<close>; the test compares the two addresses, and the increment wraps
  with the address.
\<close>

fun fill ::
  "(pixel \<Rightarrow> pixel) \<Rightarrow> nat \<Rightarrow> nat \<Rightarrow> nat \<Rightarrow> nat \<Rightarrow> (nat \<Rightarrow> pixel) \<Rightarrow> (nat \<Rightarrow> pixel)" where
  "fill f base endm 0 dst v = v"
| "fill f base endm (Suc np) dst v =
     (if px_addr base dst < px_addr base endm
      then fill f base endm np (Suc dst mod 2 ^ 62) (v(dst := f (v dst)))
      else v)"

definition olay :: pixel where
  "olay = SHMIF_RGBA 0x88 0x00 0x88 0x00"

definition mask :: pixel where
  "mask = SHMIF_RGBA 0x00 0xff 0x00 0xff"

text \<open>
  Lines 264-271: the previous run is cleared with \<open>mask\<close>, when the stored sample
  size is not zero.
\<close>

definition unpaint :: "shmif_cont \<Rightarrow> data_window \<Rightarrow> (nat \<Rightarrow> pixel)" where
  "unpaint cont wnd =
     (if last_pos_sz wnd \<noteq> 0
      then fill (\<lambda>p. p AND mask) (vidp_addr cont) (h cont * pitch cont) (last_count_px wnd)
             (px_slot (last_coord1 wnd * pitch cont + last_coord0 wnd)) (vidp cont)
      else vidp cont)"

text \<open>
  \<open>update_region map_sz cont wnd new_pos count\<close>: \<open>map_sz\<close> is the global
  \<^verbatim>\<open>fsense.map_sz\<close>, \<open>count\<close> the value \<^verbatim>\<open>wnd->ch->size(wnd->ch)\<close> returns (the channel is
  not part of the sources). The three integer divisions of the C code trap on a zero
  divisor; each is a branch returning \<open>DivByZero\<close>, in the order the code reaches them.
\<close>

definition update_region ::
  "nat \<Rightarrow> shmif_cont \<Rightarrow> data_window \<Rightarrow> nat \<Rightarrow> nat \<Rightarrow> fault + (shmif_cont \<times> data_window)" where
  "update_region map_sz cont wnd new_pos count =
     (if w cont * h cont = 0 then Inl DivByZero
      else
        let endm = h cont * pitch cont;
            step_sz = map_sz div (w cont * h cont);
            bytes_perline = step_sz * w cont
        in
        if last_pos wnd = new_pos then Inr (cont, wnd)
        else
          let v1 = unpaint cont wnd;
              wnd1 = wnd\<lparr>last_pos_sz := count\<rparr>
          in
          if count = 0 then Inr (cont\<lparr>vidp := v1\<rparr>, wnd1)
          else if bytes_perline = 0 then Inl DivByZero
          else
            let c1 = new_pos div bytes_perline in
            if step_sz = 0 then Inl DivByZero
            else
              let c0 = (new_pos - c1 * bytes_perline) div step_sz;
                  dst = px_slot (c1 * pitch cont + c0);
                  nr = count div bytes_perline;
                  count' = count - nr * bytes_perline;
                  np = nr * w cont + count' div step_sz;
                  wnd2 = wnd1\<lparr>last_coord1 := c1, last_coord0 := c0,
                               last_count_px := np, last_pos := new_pos\<rparr>
              in Inr (cont\<lparr>vidp := fill (\<lambda>p. p OR olay) (vidp_addr cont) endm np dst v1\<rparr>,
                      wnd2))"

text \<open>The step and line length that \<^verbatim>\<open>update_region\<close> computes (lines 257-258).\<close>

definition ur_step :: "nat \<Rightarrow> shmif_cont \<Rightarrow> nat" where
  "ur_step map_sz cont = map_sz div (w cont * h cont)"

definition ur_bytes_perline :: "nat \<Rightarrow> shmif_cont \<Rightarrow> nat" where
  "ur_bytes_perline map_sz cont = ur_step map_sz cont * w cont"

text \<open>
  The slots a fill loop touches: up to \<open>np\<close> consecutive slots from \<open>dst\<close>, as long as
  the pointer compares below \<^verbatim>\<open>endm\<close>.
\<close>

fun px_run :: "nat \<Rightarrow> nat \<Rightarrow> nat \<Rightarrow> nat \<Rightarrow> nat set" where
  "px_run base endm 0 dst = {}"
| "px_run base endm (Suc np) dst =
     (if px_addr base dst < px_addr base endm
      then insert dst (px_run base endm np (Suc dst mod 2 ^ 62))
      else {})"

text \<open>The run recorded in the window: what the next call clears (lines 264-271).\<close>

definition stored_run :: "shmif_cont \<Rightarrow> data_window \<Rightarrow> nat set" where
  "stored_run cont wnd =
     (if last_pos_sz wnd \<noteq> 0
      then px_run (vidp_addr cont) (h cont * pitch cont) (last_count_px wnd)
             (px_slot (last_coord1 wnd * pitch cont + last_coord0 wnd))
      else {})"

text \<open>
  The run that lines 282-297 paint for offset \<open>new_pos\<close> and sample size \<open>count\<close>.
\<close>

definition new_run :: "nat \<Rightarrow> shmif_cont \<Rightarrow> nat \<Rightarrow> nat \<Rightarrow> nat set" where
  "new_run map_sz cont new_pos count =
     (let step_sz = ur_step map_sz cont;
          bytes_perline = ur_bytes_perline map_sz cont;
          c1 = new_pos div bytes_perline;
          c0 = (new_pos - c1 * bytes_perline) div step_sz;
          nr = count div bytes_perline;
          np = nr * w cont + (count - nr * bytes_perline) div step_sz
      in px_run (vidp_addr cont) (h cont * pitch cont) np (px_slot (c1 * pitch cont + c0)))"

text \<open>Two successive calls; a fault of either is the fault of the pair.\<close>

definition update_region_twice ::
  "nat \<Rightarrow> shmif_cont \<Rightarrow> data_window \<Rightarrow> nat \<Rightarrow> nat \<Rightarrow> nat \<Rightarrow> nat
     \<Rightarrow> fault + (shmif_cont \<times> data_window)" where
  "update_region_twice map_sz cont wnd o1 n1 o2 n2 =
     (case update_region map_sz cont wnd o1 n1 of
        Inl e \<Rightarrow> Inl e
      | Inr (c1, w1) \<Rightarrow> update_region map_sz c1 w1 o2 n2)"

text \<open>Concrete rasters and windows used to evaluate the functions.\<close>

definition small_cont :: shmif_cont where
  "small_cont = \<lparr>w = 128, h = 512, pitch = 128, vidp_addr = 4096,
     vidp = (\<lambda>_. SHMIF_RGBA 0 0 0 0xff)\<rparr>"

definition fresh_wnd :: data_window where
  "fresh_wnd = \<lparr>last_pos = 2 ^ 64 - 1, last_pos_sz = 0, last_count_px = 0,
                 last_coord0 = 0, last_coord1 = 0\<rparr>"

definition lit_cont :: shmif_cont where
  "lit_cont = \<lparr>w = 4, h = 4, pitch = 4, vidp_addr = 4096,
     vidp = (\<lambda>_. 0xffffffff)\<rparr>"

definition lit_cont2 :: shmif_cont where
  "lit_cont2 = \<lparr>w = 2, h = 2, pitch = 2, vidp_addr = 4096,
     vidp = (\<lambda>_. 0xffffffff)\<rparr>"

definition lit_wnd :: data_window where
  "lit_wnd = \<lparr>last_pos = 0, last_pos_sz = 1, last_count_px = 1,
               last_coord0 = 0, last_coord1 = 0\<rparr>"

section \<open>control_event\<close>

text \<open>
  The fields of \<^verbatim>\<open>arcan_event\<close> that \<^verbatim>\<open>control_event\<close> tests on its way to the
  \<^verbatim>\<open>write\<close> of line 246.
\<close>

datatype category = EVENT_TARGET | EVENT_IO | EVENT_OTHER

record arcan_event =
  ev_category :: category
  devkind_mouse :: bool
  datatype_digital :: bool
  digital_active :: bool

text \<open>
  \<open>control_event map_sz cont ev moved x y\<close> is the offset that line 246 writes to the
  worker's request pipe, \<open>None\<close> when the event writes nothing. \<^verbatim>\<open>arcan_shmif_mousestate\<close>
  is not part of the sources: \<open>moved\<close> is the value its first call returns and \<open>x\<close>, \<open>y\<close>
  are the C \<^verbatim>\<open>int\<close> coordinates its second call stores. An event of category
  \<^verbatim>\<open>EVENT_TARGET\<close> may resize and rebuild the raster (lines 209-227), which writes
  nothing to the pipe, and leaves at line 230. The conversion of \<open>x\<close> and \<open>y\<close> to
  \<^verbatim>\<open>size_t\<close> and the 64-bit sum are written out as \<open>mod 2 ^ 64\<close>.
\<close>

definition control_event ::
  "nat \<Rightarrow> shmif_cont \<Rightarrow> arcan_event \<Rightarrow> bool \<Rightarrow> int \<Rightarrow> int \<Rightarrow> fault + nat option" where
  "control_event map_sz cont ev moved x y =
     (if ev_category ev \<noteq> EVENT_IO \<or> \<not> devkind_mouse ev then Inr None
      else if w cont * h cont = 0 then Inl DivByZero
      else
        let step_sz0 = map_sz div (w cont * h cont);
            step_sz = (if step_sz0 = 0 then 1 else step_sz0);
            bytes_perline = step_sz * w cont
        in
        if moved then Inr None
        else if datatype_digital ev \<and> digital_active ev
        then Inr (Some (nat ((y * int bytes_perline + x * int step_sz) mod 2 ^ 64)))
        else Inr None)"

definition preview16 :: shmif_cont where
  "preview16 = \<lparr>w = 16, h = 16, pitch = 16, vidp_addr = 4096,
     vidp = (\<lambda>_. SHMIF_RGBA 0 0 0 0xff)\<rparr>"

definition click :: arcan_event where
  "click = \<lparr>ev_category = EVENT_IO, devkind_mouse = True, datatype_digital = True,
             digital_active = True\<rparr>"

section \<open>The drain of the main loop\<close>

text \<open>
  The worker-to-coordinator pipe holds whole 8-byte offsets, oldest first. A
  \<^verbatim>\<open>read\<close> of 8 bytes on the non-blocking pipe returns -1 when the pipe is empty and
  otherwise 8, with the oldest offset.
\<close>

definition read_pipe :: "nat list \<Rightarrow> int \<times> nat option \<times> nat list" where
  "read_pipe q = (case q of [] \<Rightarrow> (-1, None, []) | m # q' \<Rightarrow> (8, Some m, q'))"

text \<open>Line 443: \<^verbatim>\<open>while (-1 != read(pipe_in, &pos, sizeof(pos))){}\<close>.\<close>

function flush_pipe :: "nat \<Rightarrow> nat list \<Rightarrow> nat \<times> nat list" where
  "flush_pipe pos q =
     (case read_pipe q of
        (val, d, q') \<Rightarrow>
          if -1 \<noteq> val then flush_pipe (case d of Some m \<Rightarrow> m | None \<Rightarrow> pos) q'
          else (pos, q'))"
  by pat_completeness auto
termination
  by (relation "measure (\<lambda>(pos, q). length q)") (auto simp: read_pipe_def split: list.splits)

declare flush_pipe.simps [simp del]

text \<open>
  One pass of the body of the main loop (lines 434-452) for the one window of
  \<^verbatim>\<open>fsense.windows\<close>: the result is the raster, the window, the flag \<^verbatim>\<open>dirty\<close> and
  what is left in the pipe.
\<close>

definition main_tick ::
  "nat \<Rightarrow> shmif_cont \<Rightarrow> data_window \<Rightarrow> nat \<Rightarrow> nat list
     \<Rightarrow> fault + (shmif_cont \<times> data_window \<times> bool \<times> nat list)" where
  "main_tick map_sz cont wnd count q =
     (case read_pipe q of
        (val, d, q1) \<Rightarrow>
          if -1 = val \<or> val \<noteq> 8 then Inr (cont, wnd, False, q1)
          else
            (case flush_pipe (case d of Some m \<Rightarrow> m | None \<Rightarrow> 0) q1 of
               (pos, q2) \<Rightarrow>
                 (case update_region map_sz cont wnd pos count of
                    Inl e \<Rightarrow> Inl e
                  | Inr (c1, w1) \<Rightarrow> Inr (c1, w1, True, q2))))"

section \<open>rebuild_preview\<close>

text \<open>
  The histograms \<^verbatim>\<open>dr\<close> and \<^verbatim>\<open>cr\<close> are arrays of 256 counters of 32 bits, indexed by
  a byte.
\<close>

type_synonym hist = "byte \<Rightarrow> 32 word"

definition hist_zero :: hist where
  "hist_zero = (\<lambda>_. 0)"

definition hist_inc :: "hist \<Rightarrow> byte \<Rightarrow> hist" where
  "hist_inc d b = d(b := d b + 1)"

text \<open>
  What \<^verbatim>\<open>rebuild_preview\<close> receives besides the raster. \<open>fmap\<close> is the mapped file
  (\<^verbatim>\<open>map\<close>, with \<^verbatim>\<open>map_sz\<close> its length). \<open>cutoff_nan\<close> is \<^verbatim>\<open>isnan(cutoff)\<close>, and
  \<open>below_cutoff dr cr roww\<close> is the outcome of the floating-point test
  \<^verbatim>\<open>cmp_histo(dr, cr, roww) < cutoff\<close> of lines 167 and 170: \<^verbatim>\<open>cmp_histo\<close> is a function
  of its three arguments only, and its float arithmetic is not modelled. \<open>pump row\<close> is
  what \<^verbatim>\<open>senseye_pump\<close> returns at the end of that row, \<open>timer row\<close> whether more than 14
  milliseconds have passed at line 182 of that row; both are outside the sources, and the
  pump is taken to leave the raster alone.
\<close>

record rb_env =
  fmap :: "byte list"
  cutoff_nan :: bool
  below_cutoff :: "hist \<Rightarrow> hist \<Rightarrow> nat \<Rightarrow> bool"
  detailed :: bool
  pump :: "nat \<Rightarrow> bool"
  timer :: "nat \<Rightarrow> bool"

text \<open>
  Lines 157-158, \<^verbatim>\<open>for (j = 0; j < step_sz && pos < map_sz; j++) dr[map[pos+j]]++;\<close>.
  The read of \<^verbatim>\<open>map[pos+j]\<close> is checked against the length of the file: a read past
  the end is the fault \<open>OutOfBounds\<close>.
\<close>

function accum_detailed :: "byte list \<Rightarrow> nat \<Rightarrow> nat \<Rightarrow> nat \<Rightarrow> hist \<Rightarrow> fault + hist" where
  "accum_detailed m step_sz pos j d =
     (if j < step_sz \<and> pos < length m
      then (if pos + j < length m
            then accum_detailed m step_sz pos (Suc j) (hist_inc d (m ! (pos + j)))
            else Inl (OutOfBounds (pos + j)))
      else Inr d)"
  by pat_completeness auto
termination
  by (relation "measure (\<lambda>(m, step_sz, pos, j, d). step_sz - j)") auto

declare accum_detailed.simps [simp del]

text \<open>
  Lines 152-164, the loop over the pixels of one row, from pixel \<open>i\<close>: the raster, the
  histogram \<^verbatim>\<open>dr\<close> and \<^verbatim>\<open>pos\<close> are threaded through. The reads of \<^verbatim>\<open>map[pos]\<close> stand
  under the loop test \<^verbatim>\<open>pos < map_sz\<close>.
\<close>

function px_loop ::
  "rb_env \<Rightarrow> nat \<Rightarrow> nat \<Rightarrow> nat \<Rightarrow> nat \<Rightarrow> (nat \<Rightarrow> pixel) \<Rightarrow> hist \<Rightarrow> nat
     \<Rightarrow> fault + ((nat \<Rightarrow> pixel) \<times> hist \<times> nat)" where
  "px_loop E step_sz wd row i v d pos =
     (if i < wd \<and> pos < length (fmap E)
      then
        (case (if cutoff_nan E then Inr d
               else if detailed E then accum_detailed (fmap E) step_sz pos 0 d
               else Inr (hist_inc d (fmap E ! pos))) of
           Inl e \<Rightarrow> Inl e
         | Inr d' \<Rightarrow>
             px_loop E step_sz wd row (Suc i)
               (v(row * wd + i := SHMIF_RGBA 0x00 (fmap E ! pos) 0x00 0xff)) d' (pos + step_sz))
      else Inr (v, d, pos))"
  by pat_completeness auto
termination
  by (relation "measure (\<lambda>(E, step_sz, wd, row, i, v, d, pos). wd - i)") auto

declare px_loop.simps [simp del]

text \<open>\<^verbatim>\<open>for (i = 0; i < n; i++) vidp[dst + i] = f(vidp[dst + i]);\<close>\<close>

fun paint_n :: "(pixel \<Rightarrow> pixel) \<Rightarrow> nat \<Rightarrow> nat \<Rightarrow> (nat \<Rightarrow> pixel) \<Rightarrow> (nat \<Rightarrow> pixel)" where
  "paint_n f 0 dst v = v"
| "paint_n f (Suc n) dst v = paint_n f n (Suc dst) (v(dst := f (v dst)))"

definition clear_px :: pixel where
  "clear_px = SHMIF_RGBA 0x00 0x00 0x00 0xff"

definition tint_px :: pixel where
  "tint_px = SHMIF_RGBA 0xff 0x00 0x00 0x00"

definition edge_px :: pixel where
  "edge_px = SHMIF_RGBA 0xff 0x00 0x00 0xff"

text \<open>The local variables of the row loop.\<close>

record rb_state =
  rb_vid :: "nat \<Rightarrow> pixel"
  rb_dr :: hist
  rb_cr :: hist
  rb_pos :: nat
  rb_dirty :: bool

text \<open>
  Lines 149-173: one row is drawn, then compared with the previous histogram and tinted.
\<close>

definition render_row :: "rb_env \<Rightarrow> shmif_cont \<Rightarrow> nat \<Rightarrow> nat \<Rightarrow> rb_state \<Rightarrow> fault + rb_state" where
  "render_row E cont step_sz row st =
     (case px_loop E step_sz (w cont) row 0 (rb_vid st) (rb_dr st) (rb_pos st) of
        Inl e \<Rightarrow> Inl e
      | Inr (v, d, pos) \<Rightarrow>
          Inr (if cutoff_nan E
               then st\<lparr>rb_vid := v, rb_dr := d, rb_pos := pos, rb_dirty := True\<rparr>
               else
                 st\<lparr>rb_vid :=
                      (if below_cutoff E d (rb_cr st)
                            (if detailed E then step_sz * w cont else w cont)
                       then paint_n (\<lambda>p. p OR tint_px) (w cont) (row * w cont) v
                       else v),
                    rb_dr := hist_zero, rb_cr := d, rb_pos := pos, rb_dirty := True\<rparr>))"

text \<open>
  Lines 182-188: when the timer has run out, the row below is painted as the processing
  edge and the frame is signalled.
\<close>

definition mark_edge :: "rb_env \<Rightarrow> shmif_cont \<Rightarrow> nat \<Rightarrow> rb_state \<Rightarrow> rb_state" where
  "mark_edge E cont row st =
     (if timer E row
      then st\<lparr>rb_vid := paint_n (\<lambda>_. edge_px) (if row < h cont then w cont else 0)
                          ((row + 1) * w cont) (rb_vid st),
              rb_dirty := False\<rparr>
      else st)"

text \<open>
  Lines 148-191, from row \<open>row\<close>. The result is the value returned (\<open>False\<close> when the
  pump stops the rebuild) and the state at that point.
\<close>

function rows_loop ::
  "rb_env \<Rightarrow> shmif_cont \<Rightarrow> nat \<Rightarrow> nat \<Rightarrow> rb_state \<Rightarrow> fault + (bool \<times> rb_state)" where
  "rows_loop E cont step_sz row st =
     (if rb_pos st + step_sz < length (fmap E) \<and> row < h cont
      then
        (case render_row E cont step_sz row st of
           Inl e \<Rightarrow> Inl e
         | Inr st1 \<Rightarrow>
             if \<not> pump E row then Inr (False, st1)
             else
               rows_loop E cont step_sz (Suc row) (mark_edge E cont row st1))
      else Inr (True, st))"
  by pat_completeness auto
termination
  by (relation "measure (\<lambda>(E, cont, step_sz, row, st). h cont - row)") auto

declare rows_loop.simps [simp del]

text \<open>Lines 127-131: the step of \<^verbatim>\<open>rebuild_preview\<close>, at least 1.\<close>

definition rb_step :: "nat \<Rightarrow> shmif_cont \<Rightarrow> nat" where
  "rb_step map_sz cont =
     (let step_sz = map_sz div (w cont * h cont) in if step_sz = 0 then 1 else step_sz)"

text \<open>
  \<open>rebuild_preview E cont wnd count dr0 cr0\<close>: \<open>wnd\<close> is \<^verbatim>\<open>fsense.windows[0]\<close> and
  \<open>count\<close> what the channel reports to the closing \<^verbatim>\<open>update_region\<close>. The arrays \<^verbatim>\<open>dr\<close>
  and \<^verbatim>\<open>cr\<close> are declared without an initialiser (lines 144-145): \<open>dr0\<close> and \<open>cr0\<close> are
  what the stack holds there. The result is the value returned, the raster and the window.
\<close>

definition rebuild_preview ::
  "rb_env \<Rightarrow> shmif_cont \<Rightarrow> data_window \<Rightarrow> nat \<Rightarrow> hist \<Rightarrow> hist
     \<Rightarrow> fault + (bool \<times> shmif_cont \<times> data_window)" where
  "rebuild_preview E cont wnd count dr0 cr0 =
     (if w cont * h cont = 0 then Inl DivByZero
      else
        let step_sz = rb_step (length (fmap E)) cont;
            v0 = paint_n (\<lambda>_. clear_px) (w cont * h cont) 0 (vidp cont)
        in
        (case rows_loop E cont step_sz 0
                \<lparr>rb_vid = v0, rb_dr = dr0, rb_cr = cr0, rb_pos = 0, rb_dirty = False\<rparr> of
           Inl e \<Rightarrow> Inl e
         | Inr (ret, st) \<Rightarrow>
             if \<not> ret then Inr (False, cont\<lparr>vidp := rb_vid st\<rparr>, wnd)
             else if rb_dirty st
             then
               (case update_region (length (fmap E)) (cont\<lparr>vidp := rb_vid st\<rparr>)
                       (wnd\<lparr>last_pos := 2 ^ 64 - 1\<rparr>) (last_pos wnd) count of
                  Inl e \<Rightarrow> Inl e
                | Inr (c1, w1) \<Rightarrow> Inr (True, c1, w1))
             else Inr (True, cont\<lparr>vidp := rb_vid st\<rparr>, wnd)))"

text \<open>
  Every pixel of a raster of \<open>n\<close> pixels whose first byte lies in the file has its whole
  span of \<open>step_sz\<close> bytes in the file.
\<close>

definition step_fits :: "nat \<Rightarrow> nat \<Rightarrow> nat \<Rightarrow> bool" where
  "step_fits len step_sz n = (\<forall>k<n. k * step_sz < len \<longrightarrow> k * step_sz + step_sz \<le> len)"

text \<open>The pixel that line 153 writes for pixel \<open>j\<close> of row \<open>r\<close>.\<close>

definition row_px :: "rb_env \<Rightarrow> shmif_cont \<Rightarrow> nat \<Rightarrow> nat \<Rightarrow> nat \<Rightarrow> pixel" where
  "row_px E cont step_sz r j = SHMIF_RGBA 0x00 (fmap E ! ((r * w cont + j) * step_sz)) 0x00 0xff"

text \<open>A file of 13 bytes on a raster of 2 by 3 pixels, stopped by the pump after row 1.\<close>

definition cancel_env :: rb_env where
  "cancel_env = \<lparr>fmap = [1, 2, 3, 4, 5, 6, 7, 8, 9, 10, 11, 12, 13], cutoff_nan = False,
     below_cutoff = (\<lambda>d c roww. d 1 = 0), detailed = True,
     pump = (\<lambda>row. row < 1), timer = (\<lambda>row. True)\<rparr>"

definition cancel_cont :: shmif_cont where
  "cancel_cont = \<lparr>w = 2, h = 3, pitch = 2, vidp_addr = 4096,
     vidp = (\<lambda>_. 0)\<rparr>"

text \<open>
  A file of four zero bytes on a raster of 2 by 2 pixels, edge detection on, fast mode,
  with \<open>lt\<close> the outcome of the comparison with the cutoff.
\<close>

definition zeros_env :: "(hist \<Rightarrow> hist \<Rightarrow> nat \<Rightarrow> bool) \<Rightarrow> rb_env" where
  "zeros_env lt = \<lparr>fmap = [0, 0, 0, 0], cutoff_nan = False, below_cutoff = lt,
     detailed = False, pump = (\<lambda>row. True), timer = (\<lambda>row. False)\<rparr>"

definition raster2 :: shmif_cont where
  "raster2 = \<lparr>w = 2, h = 2, pitch = 2, vidp_addr = 4096,
     vidp = (\<lambda>_. 0)\<rparr>"

section \<open>Properties of update_region\<close>

lemma fill_px_run:
  assumes idem: "\<And>x. f (f x) = f x"
  shows "fill f base endm np dst v p =
           (if p \<in> px_run base endm np dst then f (v p) else v p)"
proof (induction np arbitrary: dst v)
  case 0
  show ?case by simp
next
  case (Suc np)
  show ?case
  proof (cases "px_addr base dst < px_addr base endm")
    case False
    then show ?thesis by simp
  next
    case True
    let ?v = "v(dst := f (v dst))"
    let ?run = "px_run base endm np (Suc dst mod 2 ^ 62)"
    have "fill f base endm (Suc np) dst v p = fill f base endm np (Suc dst mod 2 ^ 62) ?v p"
      using True by simp
    also have "\<dots> = (if p \<in> ?run then f (?v p) else ?v p)"
      by (rule Suc.IH)
    also have "\<dots> = (if p \<in> insert dst ?run then f (v p) else v p)"
      by (simp add: idem)
    also have "insert dst ?run = px_run base endm (Suc np) dst"
      using True by simp
    finally show ?thesis .
  qed
qed

lemma fill_mask:
  "fill (\<lambda>p. p AND mask) base endm np dst v =
     (\<lambda>p. if p \<in> px_run base endm np dst then v p AND mask else v p)"
  by (rule ext) (rule fill_px_run, simp)

lemma fill_olay:
  "fill (\<lambda>p. p OR olay) base endm np dst v =
     (\<lambda>p. if p \<in> px_run base endm np dst then v p OR olay else v p)"
  by (rule ext) (rule fill_px_run, simp)

text \<open>
  Where neither the index nor the address wraps, the run is the interval of \<open>np\<close> slots
  from \<open>dst\<close>, cut at the end of the raster.
\<close>

lemma px_run_plain:
  assumes "base + 4 * endm < 2 ^ 64"
  shows "base + 4 * (dst + np) \<le> 2 ^ 64 \<Longrightarrow>
         px_run base endm np dst = {p. dst \<le> p \<and> p < dst + np \<and> p < endm}"
proof (induction np arbitrary: dst)
  case 0
  show ?case by simp
next
  case (Suc np)
  have "base + 4 * dst < base + 4 * (dst + Suc np)" by simp
  then have lt: "base + 4 * dst < 2 ^ 64"
    using Suc.prems by (rule less_le_trans)
  have a: "px_addr base dst = base + 4 * dst"
    unfolding px_addr_def using lt by (rule mod_less)
  have b: "px_addr base endm = base + 4 * endm"
    unfolding px_addr_def using assms by (rule mod_less)
  have cmp: "px_addr base dst < px_addr base endm \<longleftrightarrow> dst < endm"
    unfolding a b by simp
  show ?case
  proof (cases "dst < endm")
    case False
    then have "px_run base endm (Suc np) dst = {}"
      using cmp by simp
    moreover have "{p. dst \<le> p \<and> p < dst + Suc np \<and> p < endm} = {}"
      using False by auto
    ultimately show ?thesis by simp
  next
    case True
    then have unf: "px_run base endm (Suc np) dst =
                      insert dst (px_run base endm np (Suc dst mod 2 ^ 62))"
      using cmp by simp
    show ?thesis
    proof (cases "np = 0")
      case True
      have "{p. dst \<le> p \<and> p < dst + Suc 0 \<and> p < endm} = {dst}"
        using \<open>dst < endm\<close> by auto
      then show ?thesis using unf True by simp
    next
      case False
      have "4 * Suc dst < base + 4 * (dst + Suc np)" using False by simp
      then have "4 * Suc dst < (2 :: nat) ^ 64"
        using Suc.prems by (rule less_le_trans)
      then have "4 * Suc dst < 4 * (4611686018427387904 :: nat)" by simp
      then have "Suc dst < 4611686018427387904" by (simp only: mult_less_cancel1)
      then have m: "Suc dst mod 2 ^ 62 = Suc dst" by simp
      have "base + 4 * (Suc dst + np) = base + 4 * (dst + Suc np)" by simp
      then have "base + 4 * (Suc dst + np) \<le> 2 ^ 64" using Suc.prems by (simp only:)
      then have ih: "px_run base endm np (Suc dst) =
                   {p. Suc dst \<le> p \<and> p < Suc dst + np \<and> p < endm}"
        by (rule Suc.IH)
      have "insert dst {p. Suc dst \<le> p \<and> p < Suc dst + np \<and> p < endm} =
              {p. dst \<le> p \<and> p < dst + Suc np \<and> p < endm}"
        using \<open>dst < endm\<close> False by auto
      then show ?thesis using unf ih m by simp
    qed
  qed
qed

lemma px_run_numeral:
  "px_run base endm (numeral n) dst =
     (if px_addr base dst < px_addr base endm
      then insert dst (px_run base endm (pred_numeral n) (Suc dst mod 2 ^ 62))
      else {})"
  by (simp only: numeral_eq_Suc [of n] px_run.simps)

lemma fill_numeral:
  "fill f base endm (numeral n) dst v =
     (if px_addr base dst < px_addr base endm
      then fill f base endm (pred_numeral n) (Suc dst mod 2 ^ 62) (v(dst := f (v dst)))
      else v)"
  by (simp only: numeral_eq_Suc [of n] fill.simps)

lemma unpaint_stored_run:
  "unpaint cont wnd = (\<lambda>p. if p \<in> stored_run cont wnd then vidp cont p AND mask else vidp cont p)"
  by (simp add: unpaint_def stored_run_def fill_mask)

text \<open>What a call that returns has done, case by case.\<close>

lemma update_region_cases:
  assumes "update_region map_sz cont wnd new_pos count = Inr (c1, w1)"
  shows "w cont * h cont \<noteq> 0 \<and>
    ((last_pos wnd = new_pos \<and> c1 = cont \<and> w1 = wnd) \<or>
     (last_pos wnd \<noteq> new_pos \<and> count = 0 \<and>
        c1 = cont\<lparr>vidp := unpaint cont wnd\<rparr> \<and> w1 = wnd\<lparr>last_pos_sz := 0\<rparr>) \<or>
     (last_pos wnd \<noteq> new_pos \<and> count \<noteq> 0 \<and> ur_step map_sz cont \<noteq> 0 \<and>
        c1 = cont\<lparr>vidp := (\<lambda>p. if p \<in> new_run map_sz cont new_pos count
                                 then unpaint cont wnd p OR olay else unpaint cont wnd p)\<rparr> \<and>
        stored_run c1 w1 = new_run map_sz cont new_pos count \<and>
        last_pos w1 = new_pos \<and> last_pos_sz w1 = count))"
  using assms
  by (auto simp: update_region_def Let_def ur_step_def ur_bytes_perline_def new_run_def
        stored_run_def fill_olay split: if_splits)

lemma mask_value: "mask = 0xff00ff00"
  by (simp add: mask_def SHMIF_RGBA_def)

lemma olay_value: "olay = 0x00880088"
  by (simp add: olay_def SHMIF_RGBA_def)

lemma update_region_geometry:
  assumes "update_region map_sz cont wnd new_pos count = Inr (c1, w1)"
  shows "w c1 = w cont \<and> h c1 = h cont \<and> pitch c1 = pitch cont \<and>
         vidp_addr c1 = vidp_addr cont"
  using update_region_cases [OF assms] by auto

lemma update_region_frame:
  assumes "update_region map_sz cont wnd new_pos count = Inr (c1, w1)"
    and "p \<notin> stored_run cont wnd" and "p \<notin> new_run map_sz cont new_pos count"
  shows "vidp c1 p = vidp cont p"
proof -
  have u: "unpaint cont wnd p = vidp cont p"
    using assms(2) by (simp add: unpaint_stored_run)
  from update_region_cases [OF assms(1)] show ?thesis
  proof (elim conjE disjE)
    assume "c1 = cont"
    then show ?thesis by simp
  next
    assume "c1 = cont\<lparr>vidp := unpaint cont wnd\<rparr>"
    then show ?thesis using u by simp
  next
    assume "c1 = cont\<lparr>vidp := (\<lambda>p. if p \<in> new_run map_sz cont new_pos count
                                 then unpaint cont wnd p OR olay else unpaint cont wnd p)\<rparr>"
    then show ?thesis using u assms(3) by simp
  qed
qed

lemma update_region_stored_run:
  assumes "update_region map_sz cont wnd new_pos count = Inr (c1, w1)"
  shows "stored_run c1 w1 \<subseteq> stored_run cont wnd \<union> new_run map_sz cont new_pos count"
proof -
  from update_region_cases [OF assms] show ?thesis
  proof (elim conjE disjE)
    assume "c1 = cont" "w1 = wnd"
    then show ?thesis by simp
  next
    assume "w1 = wnd\<lparr>last_pos_sz := 0\<rparr>"
    then show ?thesis by (simp add: stored_run_def)
  next
    assume "stored_run c1 w1 = new_run map_sz cont new_pos count"
    then show ?thesis by simp
  qed
qed

text \<open>
  C4. The claim: in \<^verbatim>\<open>update_region\<close> the step is at least 1 whenever the file is not
  empty and the raster has positive width and height, so the divisions by the line length
  and by the step never divide by zero, also when the file is shorter than the raster.
  \<^verbatim>\<open>update_region\<close> does not clamp the step as \<^verbatim>\<open>rebuild_preview\<close> and
  \<^verbatim>\<open>control_event\<close> do: for a file of 100 bytes and the default raster of 128 by 512
  pixels the step is 0 and the division by the line length faults.
\<close>

theorem update_region_step_zero_faults:
  "ur_step 100 small_cont = 0 \<and> update_region 100 small_cont fresh_wnd 0 4096 = Inl DivByZero"
  by (simp add: ur_step_def update_region_def small_cont_def fresh_wnd_def Let_def)

text \<open>
  C6 as stated: after two successive calls every pixel outside the union of the run
  painted for the first offset and the run painted for the second is unchanged. It fails
  when the window already records a run: the first call clears that earlier run, which
  lies outside both new runs.
\<close>

theorem update_region_twice_counterexample:
  "\<exists>c2 w2. update_region_twice 16 lit_cont lit_wnd 5 1 10 1 = Inr (c2, w2) \<and>
     0 \<notin> new_run 16 lit_cont 5 1 \<union> new_run 16 lit_cont 10 1 \<and>
     vidp c2 0 \<noteq> vidp lit_cont 0"
  by (simp add: update_region_twice_def update_region_def unpaint_def lit_cont_def lit_wnd_def
        new_run_def ur_step_def ur_bytes_perline_def px_addr_def px_slot_def Let_def
        mask_value)

text \<open>
  C6, amended: after two successive calls that return, every pixel outside the union of
  the run recorded in the window before the first call, the run painted for the first
  offset and the run painted for the second holds the value it held before the first call.
\<close>

theorem update_region_twice_frame:
  assumes "update_region_twice map_sz cont wnd o1 n1 o2 n2 = Inr (c2, w2)"
    and "p \<notin> stored_run cont wnd \<union> new_run map_sz cont o1 n1 \<union> new_run map_sz cont o2 n2"
  shows "vidp c2 p = vidp cont p"
proof -
  from assms(1) obtain c1 w1 where
    r1: "update_region map_sz cont wnd o1 n1 = Inr (c1, w1)" and
    r2: "update_region map_sz c1 w1 o2 n2 = Inr (c2, w2)"
    by (auto simp: update_region_twice_def split: sum.splits)
  have geo: "w c1 = w cont" "h c1 = h cont" "pitch c1 = pitch cont"
    "vidp_addr c1 = vidp_addr cont"
    using update_region_geometry [OF r1] by simp_all
  have run2: "new_run map_sz c1 o2 n2 = new_run map_sz cont o2 n2"
    by (simp add: new_run_def ur_step_def ur_bytes_perline_def geo)
  have v1: "vidp c1 p = vidp cont p"
    using update_region_frame [OF r1] assms(2) by simp
  have "p \<notin> stored_run c1 w1"
    using update_region_stored_run [OF r1] assms(2) by blast
  moreover have "p \<notin> new_run map_sz c1 o2 n2"
    using assms(2) run2 by simp
  ultimately have "vidp c2 p = vidp c1 p"
    by (rule update_region_frame [OF r2])
  with v1 show ?thesis by simp
qed
theorem update_region_twice_frame_witness:
  "\<exists>c2 w2. update_region_twice 16 lit_cont lit_wnd 5 1 10 1 = Inr (c2, w2) \<and>
     3 \<notin> stored_run lit_cont lit_wnd \<union> new_run 16 lit_cont 5 1 \<union> new_run 16 lit_cont 10 1 \<and>
     vidp c2 3 = vidp lit_cont 3"
proof -
  have "\<exists>c2 w2. update_region_twice 16 lit_cont lit_wnd 5 1 10 1 = Inr (c2, w2)"
    by (simp add: update_region_twice_def update_region_def unpaint_def lit_cont_def
          lit_wnd_def Let_def)
  then obtain c2 w2 where r: "update_region_twice 16 lit_cont lit_wnd 5 1 10 1 = Inr (c2, w2)"
    by (elim exE)
  have n: "3 \<notin> stored_run lit_cont lit_wnd \<union> new_run 16 lit_cont 5 1 \<union> new_run 16 lit_cont 10 1"
    by (simp add: stored_run_def new_run_def ur_step_def ur_bytes_perline_def px_addr_def
          px_slot_def lit_cont_def lit_wnd_def Let_def)
  have "vidp c2 3 = vidp lit_cont 3"
    by (rule update_region_twice_frame [OF r n])
  with r n show ?thesis by (intro exI conjI)
qed
text \<open>
  C7. For a raster of positive width and height, a call whose offset equals the stored
  window offset returns at once and leaves the raster and every window field unchanged;
  and a second call with the same offset and sample size as a call that returned leaves
  the raster and the window as the first call left them.
\<close>

theorem update_region_idempotent:
  assumes "w cont * h cont \<noteq> 0"
  shows "(last_pos wnd = new_pos \<longrightarrow>
            update_region map_sz cont wnd new_pos count = Inr (cont, wnd)) \<and>
         (\<forall>c1 w1. update_region map_sz cont wnd new_pos count = Inr (c1, w1) \<longrightarrow>
            update_region map_sz c1 w1 new_pos count = Inr (c1, w1))"
proof (intro conjI allI impI)
  assume "last_pos wnd = new_pos"
  then show "update_region map_sz cont wnd new_pos count = Inr (cont, wnd)"
    using assms by (simp add: update_region_def)
next
  fix c1 w1
  assume r: "update_region map_sz cont wnd new_pos count = Inr (c1, w1)"
  show "update_region map_sz c1 w1 new_pos count = Inr (c1, w1)"
    using update_region_cases [OF r]
    by (auto simp: update_region_def unpaint_def Let_def)
qed

theorem update_region_idempotent_witness:
  "w lit_cont * h lit_cont \<noteq> 0 \<and>
   update_region 16 lit_cont lit_wnd 0 1 = Inr (lit_cont, lit_wnd) \<and>
   (\<exists>c1 w1. update_region 16 lit_cont lit_wnd 5 1 = Inr (c1, w1) \<and>
      update_region 16 c1 w1 5 1 = Inr (c1, w1))"
proof -
  have p: "w lit_cont * h lit_cont \<noteq> 0"
    by (simp add: lit_cont_def)
  have a: "update_region 16 lit_cont lit_wnd 0 1 = Inr (lit_cont, lit_wnd)"
    using update_region_idempotent [OF p, of lit_wnd 0 16 1] by (simp add: lit_wnd_def)
  have "\<exists>c1 w1. update_region 16 lit_cont lit_wnd 5 1 = Inr (c1, w1)"
    by (simp add: update_region_def unpaint_def lit_cont_def lit_wnd_def Let_def)
  then obtain c1 w1 where r: "update_region 16 lit_cont lit_wnd 5 1 = Inr (c1, w1)"
    by (elim exE)
  have "update_region 16 c1 w1 5 1 = Inr (c1, w1)"
    using update_region_idempotent [OF p, of lit_wnd 5 16 1] r by blast
  with p a r show ?thesis by (intro conjI exI)
qed

text \<open>
  On a raster that keeps its address, height and pitch, the window records what a painting
  call has painted: after a call that paints (the offset differs from the stored one and
  the sample size is not zero), the stored coordinates and pixel count are the ones
  computed from the step and line length of that call, the painted slots are exactly the
  recorded run, and the clearing loop of the next call clears exactly that run.
\<close>

lemma update_region_paint_recorded:
  assumes "update_region map_sz cont wnd new_pos count = Inr (c1, w1)"
    and "last_pos wnd \<noteq> new_pos" and "count \<noteq> 0"
  shows "ur_step map_sz cont \<noteq> 0 \<and>
    last_coord1 w1 = new_pos div ur_bytes_perline map_sz cont \<and>
    last_coord0 w1 =
      (new_pos - last_coord1 w1 * ur_bytes_perline map_sz cont) div ur_step map_sz cont \<and>
    last_count_px w1 =
      (count div ur_bytes_perline map_sz cont) * w cont +
      (count - (count div ur_bytes_perline map_sz cont) * ur_bytes_perline map_sz cont)
        div ur_step map_sz cont \<and>
    stored_run c1 w1 = new_run map_sz cont new_pos count \<and>
    vidp c1 = (\<lambda>p. if p \<in> stored_run c1 w1 then unpaint cont wnd p OR olay
                    else unpaint cont wnd p) \<and>
    (\<forall>c'. vidp_addr c' = vidp_addr c1 \<and> h c' = h c1 \<and> pitch c' = pitch c1 \<longrightarrow>
       unpaint c' w1 = (\<lambda>p. if p \<in> stored_run c1 w1 then vidp c' p AND mask else vidp c' p))"
proof -
  have fields: "ur_step map_sz cont \<noteq> 0 \<and>
    last_coord1 w1 = new_pos div ur_bytes_perline map_sz cont \<and>
    last_coord0 w1 =
      (new_pos - last_coord1 w1 * ur_bytes_perline map_sz cont) div ur_step map_sz cont \<and>
    last_count_px w1 =
      (count div ur_bytes_perline map_sz cont) * w cont +
      (count - (count div ur_bytes_perline map_sz cont) * ur_bytes_perline map_sz cont)
        div ur_step map_sz cont"
    using assms
    by (auto simp: update_region_def Let_def ur_step_def ur_bytes_perline_def
          split: if_splits)
  have painted: "stored_run c1 w1 = new_run map_sz cont new_pos count \<and>
    vidp c1 = (\<lambda>p. if p \<in> stored_run c1 w1 then unpaint cont wnd p OR olay
                    else unpaint cont wnd p)"
    using update_region_cases [OF assms(1)] assms(2,3) by auto
  have cleared: "unpaint c' w1 =
      (\<lambda>p. if p \<in> stored_run c1 w1 then vidp c' p AND mask else vidp c' p)"
    if "vidp_addr c' = vidp_addr c1 \<and> h c' = h c1 \<and> pitch c' = pitch c1" for c'
  proof -
    have "stored_run c' w1 = stored_run c1 w1"
      using that by (simp add: stored_run_def)
    then show ?thesis by (simp add: unpaint_stored_run)
  qed
  from fields painted cleared show ?thesis by blast
qed

text \<open>
  At an offset near \<open>2 ^ 64\<close> the index and the pointer wrap: the run starts in the
  memory before the raster and runs into its first pixels.
\<close>

lemma new_run_wraps: "{0, 1, 2, 3} \<subseteq> new_run 16 lit_cont (2 ^ 64 - 8) 12"
proof -
  have st: "ur_step 16 lit_cont = 1" "ur_bytes_perline 16 lit_cont = 4"
    by (simp_all add: ur_step_def ur_bytes_perline_def lit_cont_def)
  have slot: "px_slot ((2 ^ 64 - 8) div 4 * 4 + (2 ^ 64 - 8 - (2 ^ 64 - 8) div 4 * 4) div 1)
                = 4611686018427387896"
    by (simp add: px_slot_def)
  have run: "new_run 16 lit_cont (2 ^ 64 - 8) 12 = px_run 4096 16 12 4611686018427387896"
    unfolding new_run_def Let_def st
    by (simp add: lit_cont_def slot [simplified])
  show ?thesis
    unfolding run by (simp add: px_run_numeral px_addr_def)
qed

text \<open>
  C9. The claim: after every painting call the stored coordinates and pixel count are
  consistent with the step and line length, so that the next call clears exactly the
  pixels the previous one painted, across every sequence of overlay updates. The stored
  coordinates outlive a resize: a highlight painted at offset 5 with sample size 4 on a
  raster of 4 by 4 pixels covers the slots 5 to 8; when the raster has become 2 by 2 and
  \<^verbatim>\<open>rebuild_preview\<close> calls \<^verbatim>\<open>update_region\<close> again for that offset (lines 196-198), the
  clearing loop starts at \<open>1 * 2 + 1\<close> and clears pixel 3, which was never painted.
\<close>

theorem update_region_stale_unpaint:
  "\<exists>c1 w1 c2 w2.
     update_region 16 lit_cont fresh_wnd 5 4 = Inr (c1, w1) \<and>
     stored_run c1 w1 = {5, 6, 7, 8} \<and>
     stored_run lit_cont2 w1 = {3} \<and>
     update_region 16 lit_cont2 (w1\<lparr>last_pos := 2 ^ 64 - 1\<rparr>) (last_pos w1) 4 = Inr (c2, w2) \<and>
     vidp c2 3 = vidp lit_cont2 3 AND mask \<and>
     vidp c2 3 \<noteq> vidp lit_cont2 3"
proof -
  define w1 where "w1 = \<lparr>last_pos = 5, last_pos_sz = 4, last_count_px = 4,
                          last_coord0 = 1, last_coord1 = 1\<rparr>"
  define c1 where "c1 = lit_cont\<lparr>vidp := fill (\<lambda>p. p OR olay) 4096 16 4 5 (vidp lit_cont)\<rparr>"
  have r1: "update_region 16 lit_cont fresh_wnd 5 4 = Inr (c1, w1)"
    by (simp add: update_region_def unpaint_def lit_cont_def fresh_wnd_def px_slot_def
          Let_def c1_def w1_def)
  have s1: "stored_run c1 w1 = {5, 6, 7, 8}"
    by (simp add: stored_run_def c1_def w1_def lit_cont_def px_slot_def px_run_numeral
          px_addr_def)
  have s2: "stored_run lit_cont2 w1 = {3}"
    by (simp add: stored_run_def w1_def lit_cont2_def px_slot_def px_run_numeral px_addr_def)
  define c2 where "c2 = lit_cont2\<lparr>vidp := fill (\<lambda>p. p OR olay) 4096 4 1 1
                            (unpaint lit_cont2 (w1\<lparr>last_pos := 2 ^ 64 - 1\<rparr>))\<rparr>"
  define w2 where "w2 = \<lparr>last_pos = 5, last_pos_sz = 4, last_count_px = 1,
                          last_coord0 = 1, last_coord1 = 0\<rparr>"
  have r2: "update_region 16 lit_cont2 (w1\<lparr>last_pos := 2 ^ 64 - 1\<rparr>) (last_pos w1) 4
              = Inr (c2, w2)"
    by (simp add: update_region_def lit_cont2_def px_slot_def Let_def c2_def w2_def w1_def
          del: One_nat_def)
  have un: "unpaint lit_cont2 (w1\<lparr>last_pos := 2 ^ 64 - 1\<rparr>) 3 = vidp lit_cont2 3 AND mask"
    by (simp add: unpaint_stored_run stored_run_def w1_def lit_cont2_def px_slot_def
          px_run_numeral px_addr_def)
  have "vidp c2 3 = unpaint lit_cont2 (w1\<lparr>last_pos := 2 ^ 64 - 1\<rparr>) 3"
    by (simp add: c2_def fill_olay px_addr_def)
  then have v: "vidp c2 3 = vidp lit_cont2 3 AND mask" using un by simp
  have ne: "vidp c2 3 \<noteq> vidp lit_cont2 3"
    unfolding v by (simp add: lit_cont2_def mask_value)
  from r1 s1 s2 r2 v ne show ?thesis by (intro exI conjI)
qed

section \<open>Properties of control_event\<close>

lemma click_no_wrap:
  fixes x y wd ht step_sz :: nat
  assumes "x < wd" "y < ht" "step_sz * (wd * ht) < 2 ^ 64"
  shows "y * (step_sz * wd) + x * step_sz < 2 ^ 64"
proof -
  have "y * wd + x < y * wd + wd" using assms(1) by simp
  also have "\<dots> = Suc y * wd" by simp
  also have "\<dots> \<le> ht * wd" using assms(2) by (intro mult_le_mono1) simp
  finally have "y * wd + x < wd * ht" by (simp add: mult.commute)
  then have "step_sz * (y * wd + x) \<le> step_sz * (wd * ht)"
    by (intro mult_le_mono2) simp
  moreover have "y * (step_sz * wd) + x * step_sz = step_sz * (y * wd + x)"
    by (simp add: algebra_simps)
  ultimately show ?thesis using assms(3) by linarith
qed

text \<open>
  C8. For a click at pixel \<open>(x, y)\<close> of a raster of positive width and height, with file
  length and raster size below \<open>2 ^ 64\<close>, the offset written to the request pipe is
  \<open>y * bytesPerRow + x * step\<close> with \<open>step = max 1 (length div (w * h))\<close> and
  \<open>bytesPerRow = step * w\<close>; a click at \<open>(3, 2)\<close> with step 4 and width 16 writes 140.
\<close>

theorem control_event_click_offset:
  assumes "w cont * h cont \<noteq> 0"
    and "0 \<le> x" "x < int (w cont)" "0 \<le> y" "y < int (h cont)"
    and "map_sz < 2 ^ 64" "w cont * h cont < 2 ^ 64"
  shows "control_event map_sz cont click False x y =
           Inr (Some (nat y * (max 1 (map_sz div (w cont * h cont)) * w cont) +
                      nat x * max 1 (map_sz div (w cont * h cont))))"
proof -
  define step_sz where "step_sz = max 1 (map_sz div (w cont * h cont))"
  have step: "(if map_sz div (w cont * h cont) = 0 then 1 else map_sz div (w cont * h cont))
                = step_sz"
    by (simp add: step_sz_def max_def)
  have "step_sz * (w cont * h cont) < 2 ^ 64"
  proof (cases "map_sz div (w cont * h cont) = 0")
    case True
    then show ?thesis using assms(7) by (simp add: step_sz_def)
  next
    case False
    then have "step_sz = map_sz div (w cont * h cont)" by (simp add: step_sz_def max_def)
    then have "step_sz * (w cont * h cont) \<le> map_sz" by simp
    then show ?thesis using assms(6) by simp
  qed
  then have small: "nat y * (step_sz * w cont) + nat x * step_sz < 2 ^ 64"
    using assms(2-5) by (intro click_no_wrap [where ht = "h cont"]) auto
  have "y * int (step_sz * w cont) + x * int step_sz
          = int (nat y * (step_sz * w cont) + nat x * step_sz)"
    using assms(2,4) by simp
  moreover have "int (nat y * (step_sz * w cont) + nat x * step_sz) mod 2 ^ 64
          = int (nat y * (step_sz * w cont) + nat x * step_sz)"
    using small by (simp add: zmod_int [symmetric] del: of_nat_add of_nat_mult)
  ultimately have "nat ((y * int (step_sz * w cont) + x * int step_sz) mod 2 ^ 64)
          = nat y * (step_sz * w cont) + nat x * step_sz"
    by (simp del: of_nat_add of_nat_mult)
  then have "control_event map_sz cont click False x y =
           Inr (Some (nat y * (step_sz * w cont) + nat x * step_sz))"
    using assms(1) step
    by (simp add: control_event_def click_def Let_def del: of_nat_add of_nat_mult)
  then show ?thesis unfolding step_sz_def .
qed

theorem control_event_click_offset_witness:
  "w preview16 * h preview16 \<noteq> 0 \<and> (3::int) < int (w preview16) \<and>
   (2::int) < int (h preview16) \<and> max 1 (1024 div (w preview16 * h preview16)) = (4::nat) \<and>
   control_event 1024 preview16 click False 3 2 = Inr (Some 140)"
  using control_event_click_offset [of preview16 3 2 1024]
  by (simp add: preview16_def)

section \<open>Properties of the drain\<close>

lemma flush_pipe_Nil: "flush_pipe pos [] = (pos, [])"
  by (subst flush_pipe.simps) (simp add: read_pipe_def)

lemma flush_pipe_Cons: "flush_pipe pos (m # q) = flush_pipe m q"
  by (subst flush_pipe.simps) (simp add: read_pipe_def)

lemma flush_pipe_last: "flush_pipe pos q = (last (pos # q), [])"
  by (induction q arbitrary: pos) (simp_all add: flush_pipe_Nil flush_pipe_Cons)

text \<open>
  C3. When the pipe holds a backlog of one or more offsets at the drain,
  \<^verbatim>\<open>update_region\<close> is called once, with the last offset of the backlog, the pipe is
  left empty and the frame is marked dirty: the pass is the single call for the last
  offset, so no earlier offset reaches the overlay. With an empty pipe nothing is called.
\<close>

theorem main_tick_coalesces:
  "(q \<noteq> [] \<longrightarrow>
      main_tick map_sz cont wnd count q =
        (case update_region map_sz cont wnd (last q) count of
           Inl e \<Rightarrow> Inl e
         | Inr (c1, w1) \<Rightarrow> Inr (c1, w1, True, []))) \<and>
   main_tick map_sz cont wnd count [] = Inr (cont, wnd, False, [])"
proof (intro conjI impI)
  assume "q \<noteq> []"
  then obtain m q1 where q: "q = m # q1" by (cases q) auto
  have "flush_pipe m q1 = (last q, [])"
    by (simp add: flush_pipe_last q)
  then show "main_tick map_sz cont wnd count q =
        (case update_region map_sz cont wnd (last q) count of
           Inl e \<Rightarrow> Inl e
         | Inr (c1, w1) \<Rightarrow> Inr (c1, w1, True, []))"
    by (simp add: main_tick_def read_pipe_def q)
next
  show "main_tick map_sz cont wnd count [] = Inr (cont, wnd, False, [])"
    by (simp add: main_tick_def read_pipe_def)
qed

theorem main_tick_coalesces_witness:
  "[7, 3, 5] \<noteq> ([] :: nat list) \<and>
   main_tick 16 lit_cont lit_wnd 1 [7, 3, 5] =
     (case update_region 16 lit_cont lit_wnd 5 1 of
        Inl e \<Rightarrow> Inl e
      | Inr (c1, w1) \<Rightarrow> Inr (c1, w1, True, []))"
  using main_tick_coalesces [of "[7, 3, 5]" 16 lit_cont lit_wnd 1]
  by simp

section \<open>Properties of rebuild_preview\<close>

lemma rb_step_fits: "step_fits len (rb_step len cont) (w cont * h cont)"
proof (cases "len div (w cont * h cont) = 0")
  case True
  then have "rb_step len cont = 1" by (simp add: rb_step_def)
  then show ?thesis by (simp add: step_fits_def)
next
  case False
  then have s: "rb_step len cont = len div (w cont * h cont)" by (simp add: rb_step_def Let_def)
  show ?thesis
    unfolding step_fits_def
  proof (intro allI impI)
    fix k assume k: "k < w cont * h cont"
    have "k * rb_step len cont + rb_step len cont = Suc k * rb_step len cont" by simp
    also have "\<dots> \<le> (w cont * h cont) * rb_step len cont"
      using k by (intro mult_le_mono1) simp
    also have "\<dots> \<le> len" by (simp add: s)
    finally show "k * rb_step len cont + rb_step len cont \<le> len" .
  qed
qed

lemma rb_step_pos: "0 < rb_step len cont"
  by (simp add: rb_step_def Let_def)

lemma accum_detailed_ok:
  "pos + step_sz \<le> length m \<Longrightarrow> \<exists>d'. accum_detailed m step_sz pos j d = Inr d'"
proof (induction m step_sz pos j d rule: accum_detailed.induct)
  case (1 m step_sz pos j d)
  show ?case
  proof (cases "j < step_sz \<and> pos < length m")
    case True
    then have "pos + j < length m" using "1.prems" by simp
    then show ?thesis
      using True "1.IH" "1.prems" by (subst accum_detailed.simps) simp
  next
    case False
    then show ?thesis by (subst accum_detailed.simps) auto
  qed
qed

lemma px_index_bound:
  fixes row i wd ht :: nat
  assumes "row < ht" "i < wd"
  shows "row * wd + i < wd * ht"
proof -
  have "row * wd + i < row * wd + wd" using assms(2) by simp
  also have "\<dots> = Suc row * wd" by simp
  also have "\<dots> \<le> ht * wd" using assms(1) by (intro mult_le_mono1) simp
  finally show ?thesis by (simp add: mult.commute)
qed

lemma px_loop_stop:
  "\<not> (i < wd \<and> pos < length (fmap E)) \<Longrightarrow> px_loop E step_sz wd row i v d pos = Inr (v, d, pos)"
  by (subst px_loop.simps) auto

lemma px_loop_step:
  assumes "i < wd" "pos < length (fmap E)"
    and "(if cutoff_nan E then Inr d
          else if detailed E then accum_detailed (fmap E) step_sz pos 0 d
          else Inr (hist_inc d (fmap E ! pos))) = Inr d1"
  shows "px_loop E step_sz wd row i v d pos =
           px_loop E step_sz wd row (Suc i)
             (v(row * wd + i := SHMIF_RGBA 0x00 (fmap E ! pos) 0x00 0xff)) d1 (pos + step_sz)"
  using assms by (subst px_loop.simps) (simp del: fun_upd_apply)

lemma px_loop_ok:
  "row < ht \<Longrightarrow> step_fits (length (fmap E)) step_sz (wd * ht) \<Longrightarrow>
   pos = (row * wd + i) * step_sz \<Longrightarrow>
   \<exists>v' d' pos'. px_loop E step_sz wd row i v d pos = Inr (v', d', pos')"
proof (induction E step_sz wd row i v d pos rule: px_loop.induct)
  case (1 E step_sz wd row i v d pos)
  show ?case
  proof (cases "i < wd \<and> pos < length (fmap E)")
    case False
    then show ?thesis by (subst px_loop.simps) auto
  next
    case True
    have "row * wd + i < wd * ht" using "1.prems"(1) True by (intro px_index_bound) simp_all
    then have fit: "pos + step_sz \<le> length (fmap E)"
      using "1.prems"(2,3) True by (simp add: step_fits_def)
    have "\<exists>d1. (if cutoff_nan E then Inr d
               else if detailed E then accum_detailed (fmap E) step_sz pos 0 d
               else Inr (hist_inc d (fmap E ! pos))) = Inr d1"
      using accum_detailed_ok [OF fit, of 0 d] by simp
    then obtain d1 where d1: "(if cutoff_nan E then Inr d
               else if detailed E then accum_detailed (fmap E) step_sz pos 0 d
               else Inr (hist_inc d (fmap E ! pos))) = Inr d1"
      by (elim exE)
    have next_pos: "pos + step_sz = (row * wd + Suc i) * step_sz"
      using "1.prems"(3) by (simp add: algebra_simps)
    from "1.IH" [OF True d1 "1.prems"(1,2) next_pos]
    show ?thesis using True d1 by (simp only: px_loop_step [where ?d1.0 = d1])
  qed
qed


lemma px_loop_fault:
  assumes "i < wd" "pos < length (fmap E)"
    and "(if cutoff_nan E then Inr d
          else if detailed E then accum_detailed (fmap E) step_sz pos 0 d
          else Inr (hist_inc d (fmap E ! pos))) = Inl e"
  shows "px_loop E step_sz wd row i v d pos = Inl e"
  using assms by (subst px_loop.simps) (simp del: fun_upd_apply)

text \<open>Induction over the iterations of a pixel loop that returns.\<close>

lemma px_loop_Inr_induct [consumes 1, case_names stop step]:
  assumes run: "px_loop E step_sz wd row i v d pos = Inr res"
    and stop: "\<And>i v d pos. \<not> (i < wd \<and> pos < length (fmap E)) \<Longrightarrow> P i v d pos (v, d, pos)"
    and step: "\<And>i v d pos d1 res.
        i < wd \<Longrightarrow> pos < length (fmap E) \<Longrightarrow>
        (if cutoff_nan E then Inr d
         else if detailed E then accum_detailed (fmap E) step_sz pos 0 d
         else Inr (hist_inc d (fmap E ! pos))) = Inr d1 \<Longrightarrow>
        px_loop E step_sz wd row (Suc i)
          (v(row * wd + i := SHMIF_RGBA 0x00 (fmap E ! pos) 0x00 0xff)) d1 (pos + step_sz) = Inr res \<Longrightarrow>
        P (Suc i) (v(row * wd + i := SHMIF_RGBA 0x00 (fmap E ! pos) 0x00 0xff)) d1 (pos + step_sz) res \<Longrightarrow>
        P i v d pos res"
  shows "P i v d pos res"
  using run
proof (induction n \<equiv> "wd - i" arbitrary: i v d pos)
  case 0
  then have "\<not> (i < wd \<and> pos < length (fmap E))" by simp
  then have "px_loop E step_sz wd row i v d pos = Inr (v, d, pos)"
    and "P i v d pos (v, d, pos)"
    by (rule px_loop_stop, rule stop)
  then show ?case using "0.prems" by simp
next
  case (Suc n)
  show ?case
  proof (cases "i < wd \<and> pos < length (fmap E)")
    case False
    then have "px_loop E step_sz wd row i v d pos = Inr (v, d, pos)"
      and "P i v d pos (v, d, pos)"
      by (rule px_loop_stop, rule stop)
    then show ?thesis using Suc.prems by simp
  next
    case True
    show ?thesis
    proof (cases "if cutoff_nan E then Inr d
         else if detailed E then accum_detailed (fmap E) step_sz pos 0 d
         else Inr (hist_inc d (fmap E ! pos))")
      case (Inl e)
      then have "px_loop E step_sz wd row i v d pos = Inl e"
        using True by (intro px_loop_fault) simp_all
      then show ?thesis using Suc.prems by simp
    next
      case (Inr d1)
      have nxt: "px_loop E step_sz wd row (Suc i)
          (v(row * wd + i := SHMIF_RGBA 0x00 (fmap E ! pos) 0x00 0xff)) d1 (pos + step_sz) = Inr res"
      proof -
        have "px_loop E step_sz wd row i v d pos =
           px_loop E step_sz wd row (Suc i)
             (v(row * wd + i := SHMIF_RGBA 0x00 (fmap E ! pos) 0x00 0xff)) d1 (pos + step_sz)"
          using True Inr by (intro px_loop_step) (simp_all only: simp_thms)
        then show ?thesis using Suc.prems by (simp only:)
      qed
      have "n = wd - Suc i" using Suc.hyps(2) by simp
      have ih: "P (Suc i) (v(row * wd + i := SHMIF_RGBA 0x00 (fmap E ! pos) 0x00 0xff)) d1
                  (pos + step_sz) res"
        using \<open>n = wd - Suc i\<close> nxt by (rule Suc.hyps(1))
      from True have a: "i < wd" and b: "pos < length (fmap E)" by simp_all
      show ?thesis by (rule step [OF a b Inr nxt ih])
    qed
  qed
qed


lemma px_loop_frame:
  assumes "px_loop E step_sz wd row i v d pos = Inr res"
    and "p < row * wd + i \<or> row * wd + wd \<le> p"
  shows "fst res p = v p"
  using assms
proof (induction rule: px_loop_Inr_induct)
  case (stop i v d pos)
  show ?case by simp
next
  case (step i v d pos d1 res)
  have "fst res p = (v(row * wd + i := SHMIF_RGBA 0x00 (fmap E ! pos) 0x00 0xff)) p"
    using step.prems by (intro step.IH) auto
  also have "\<dots> = v p" using step.prems step.hyps(1) by auto
  finally show ?case .
qed

lemma px_loop_pos:
  assumes "px_loop E step_sz wd row i v d pos = Inr res" and "i \<le> wd"
  shows "snd (snd res) = pos + (wd - i) * step_sz \<or> length (fmap E) \<le> snd (snd res)"
  using assms
proof (induction rule: px_loop_Inr_induct)
  case (stop i v d pos)
  then show ?case by auto
next
  case (step i v d pos d1 res)
  have "snd (snd res) = pos + step_sz + (wd - Suc i) * step_sz \<or> length (fmap E) \<le> snd (snd res)"
    using step.hyps(1) by (intro step.IH) simp
  moreover have "pos + step_sz + (wd - Suc i) * step_sz = pos + (wd - i) * step_sz"
  proof -
    have "wd - i = Suc (wd - Suc i)" using step.hyps(1) by simp
    then show ?thesis by simp
  qed
  ultimately show ?case by simp
qed

lemma px_loop_pixels:
  assumes "px_loop E step_sz wd row i v d pos = Inr res"
    and "i \<le> j" "j < wd" "pos + (j - i) * step_sz < length (fmap E)"
  shows "fst res (row * wd + j) = SHMIF_RGBA 0x00 (fmap E ! (pos + (j - i) * step_sz)) 0x00 0xff"
  using assms
proof (induction rule: px_loop_Inr_induct)
  case (stop i v d pos)
  have "pos \<le> pos + (j - i) * step_sz" by simp
  then have "i < wd \<and> pos < length (fmap E)"
    using stop.prems by linarith
  with stop.hyps show ?case by simp
next
  case (step i v d pos d1 res)
  show ?case
  proof (cases "i = j")
    case True
    have "fst res (row * wd + j) =
            (v(row * wd + i := SHMIF_RGBA 0x00 (fmap E ! pos) 0x00 0xff)) (row * wd + j)"
      using True by (intro px_loop_frame [OF step.hyps(4)]) simp
    then show ?thesis using True by simp
  next
    case False
    then have le: "Suc i \<le> j" using step.prems(1) by simp
    have e: "pos + step_sz + (j - Suc i) * step_sz = pos + (j - i) * step_sz"
    proof -
      have "j - i = Suc (j - Suc i)" using le by simp
      then show ?thesis by simp
    qed
    have "fst res (row * wd + j) =
            SHMIF_RGBA 0x00 (fmap E ! (pos + step_sz + (j - Suc i) * step_sz)) 0x00 0xff"
      using le step.prems(2,3) e by (intro step.IH) simp_all
    then show ?thesis using e by simp
  qed
qed

lemma paint_n_apply:
  "paint_n f n dst v p = (if dst \<le> p \<and> p < dst + n then f (v p) else v p)"
proof (induction n arbitrary: dst v)
  case 0
  show ?case by auto
next
  case (Suc n)
  have "paint_n f (Suc n) dst v p = paint_n f n (Suc dst) (v(dst := f (v dst))) p"
    by simp
  also have "\<dots> = (if Suc dst \<le> p \<and> p < Suc dst + n
                    then f ((v(dst := f (v dst))) p) else (v(dst := f (v dst))) p)"
    by (rule Suc.IH)
  also have "\<dots> = (if dst \<le> p \<and> p < dst + Suc n then f (v p) else v p)"
    by auto
  finally show ?case .
qed

lemma px_loop_pos_full:
  assumes "px_loop E step_sz wd row i v d pos = Inr res"
    and "i \<le> wd" "0 < step_sz" "pos + (wd - i) * step_sz \<le> length (fmap E)"
  shows "snd (snd res) = pos + (wd - i) * step_sz"
  using assms
proof (induction rule: px_loop_Inr_induct)
  case (stop i v d pos)
  show ?case
  proof (cases "i < wd")
    case True
    then have "length (fmap E) \<le> pos" using stop.hyps by simp
    moreover have "pos + step_sz \<le> pos + (wd - i) * step_sz"
    proof -
      have "1 * step_sz \<le> (wd - i) * step_sz"
        using True by (intro mult_le_mono1) simp
      then show ?thesis by simp
    qed
    ultimately show ?thesis using stop.prems by linarith
  next
    case False
    then show ?thesis by simp
  qed
next
  case (step i v d pos d1 res)
  have e: "pos + step_sz + (wd - Suc i) * step_sz = pos + (wd - i) * step_sz"
  proof -
    have "wd - i = Suc (wd - Suc i)" using step.hyps(1) by simp
    then show ?thesis by simp
  qed
  have "snd (snd res) = pos + step_sz + (wd - Suc i) * step_sz"
    using step.hyps(1) step.prems e by (intro step.IH) simp_all
  then show ?case using e by simp
qed

text \<open>What a row that returns has done.\<close>

lemma render_row_cases:
  assumes "render_row E cont step_sz row st = Inr st1"
  obtains v d pos where
    "px_loop E step_sz (w cont) row 0 (rb_vid st) (rb_dr st) (rb_pos st) = Inr (v, d, pos)"
    "rb_pos st1 = pos" "rb_dirty st1"
    "rb_vid st1 = v \<or> rb_vid st1 = paint_n (\<lambda>p. p OR tint_px) (w cont) (row * w cont) v"
    "\<not> cutoff_nan E \<Longrightarrow> rb_dr st1 = hist_zero \<and> rb_cr st1 = d \<and>
       rb_vid st1 = (if below_cutoff E d (rb_cr st) (if detailed E then step_sz * w cont else w cont)
                     then paint_n (\<lambda>p. p OR tint_px) (w cont) (row * w cont) v else v)"
proof (cases "px_loop E step_sz (w cont) row 0 (rb_vid st) (rb_dr st) (rb_pos st)")
  case (Inl e)
  then show ?thesis using assms by (simp add: render_row_def)
next
  case (Inr res)
  obtain v d pos where res: "res = (v, d, pos)" by (cases res) auto
  have st1: "st1 = (if cutoff_nan E
               then st\<lparr>rb_vid := v, rb_dr := d, rb_pos := pos, rb_dirty := True\<rparr>
               else
                 st\<lparr>rb_vid :=
                      (if below_cutoff E d (rb_cr st)
                            (if detailed E then step_sz * w cont else w cont)
                       then paint_n (\<lambda>p. p OR tint_px) (w cont) (row * w cont) v
                       else v),
                    rb_dr := hist_zero, rb_cr := d, rb_pos := pos, rb_dirty := True\<rparr>)"
    using assms Inr res by (simp add: render_row_def)
  show ?thesis
  proof (rule that [of v d pos])
    show "px_loop E step_sz (w cont) row 0 (rb_vid st) (rb_dr st) (rb_pos st) = Inr (v, d, pos)"
      using Inr res by simp
    show "rb_pos st1 = pos" by (simp add: st1)
    show "rb_dirty st1" by (simp add: st1)
    show "rb_vid st1 = v \<or> rb_vid st1 = paint_n (\<lambda>p. p OR tint_px) (w cont) (row * w cont) v"
      by (simp add: st1)
    show "rb_dr st1 = hist_zero \<and> rb_cr st1 = d \<and>
       rb_vid st1 = (if below_cutoff E d (rb_cr st) (if detailed E then step_sz * w cont else w cont)
                     then paint_n (\<lambda>p. p OR tint_px) (w cont) (row * w cont) v else v)"
      if "\<not> cutoff_nan E"
      using that by (simp add: st1)
  qed
qed

lemma render_row_frame:
  assumes "render_row E cont step_sz row st = Inr st1"
    and "p < row * w cont \<or> row * w cont + w cont \<le> p"
  shows "rb_vid st1 p = rb_vid st p"
proof -
  from assms(1) obtain v d pos where
    px: "px_loop E step_sz (w cont) row 0 (rb_vid st) (rb_dr st) (rb_pos st) = Inr (v, d, pos)"
    and vid: "rb_vid st1 = v \<or> rb_vid st1 = paint_n (\<lambda>p. p OR tint_px) (w cont) (row * w cont) v"
    by (rule render_row_cases)
  have "v p = rb_vid st p"
    using px_loop_frame [OF px, of p] assms(2) by simp
  moreover have "paint_n (\<lambda>p. p OR tint_px) (w cont) (row * w cont) v p = v p"
    using assms(2) by (auto simp: paint_n_apply)
  ultimately show ?thesis using vid by auto
qed

lemma render_row_pixels:
  assumes "render_row E cont step_sz row st = Inr st1"
    and "j < w cont" "rb_pos st + j * step_sz < length (fmap E)"
  shows "rb_vid st1 (row * w cont + j) = SHMIF_RGBA 0x00 (fmap E ! (rb_pos st + j * step_sz)) 0x00 0xff \<or>
         rb_vid st1 (row * w cont + j) =
           SHMIF_RGBA 0x00 (fmap E ! (rb_pos st + j * step_sz)) 0x00 0xff OR tint_px"
proof -
  from assms(1) obtain v d pos where
    px: "px_loop E step_sz (w cont) row 0 (rb_vid st) (rb_dr st) (rb_pos st) = Inr (v, d, pos)"
    and vid: "rb_vid st1 = v \<or> rb_vid st1 = paint_n (\<lambda>p. p OR tint_px) (w cont) (row * w cont) v"
    by (rule render_row_cases)
  have "v (row * w cont + j) = SHMIF_RGBA 0x00 (fmap E ! (rb_pos st + j * step_sz)) 0x00 0xff"
    using px_loop_pixels [OF px, of j] assms(2,3) by simp
  moreover have "paint_n (\<lambda>p. p OR tint_px) (w cont) (row * w cont) v (row * w cont + j)
                   = v (row * w cont + j) OR tint_px"
    using assms(2) by (simp add: paint_n_apply)
  ultimately show ?thesis using vid by auto
qed

lemma render_row_ok:
  assumes "row < h cont" "step_fits (length (fmap E)) step_sz (w cont * h cont)"
    and "rb_pos st = row * w cont * step_sz"
  shows "\<exists>st1. render_row E cont step_sz row st = Inr st1"
proof -
  have "rb_pos st = (row * w cont + 0) * step_sz" using assms(3) by simp
  from px_loop_ok [OF assms(1,2) this]
  obtain v d pos where
    "px_loop E step_sz (w cont) row 0 (rb_vid st) (rb_dr st) (rb_pos st) = Inr (v, d, pos)"
    by blast
  then show ?thesis by (simp add: render_row_def)
qed

lemma rows_loop_stop:
  "\<not> (rb_pos st + step_sz < length (fmap E) \<and> row < h cont) \<Longrightarrow>
   rows_loop E cont step_sz row st = Inr (True, st)"
  by (subst rows_loop.simps) auto

lemma rows_loop_fault:
  "rb_pos st + step_sz < length (fmap E) \<Longrightarrow> row < h cont \<Longrightarrow>
   render_row E cont step_sz row st = Inl e \<Longrightarrow>
   rows_loop E cont step_sz row st = Inl e"
  by (subst rows_loop.simps) simp

lemma rows_loop_abort:
  "rb_pos st + step_sz < length (fmap E) \<Longrightarrow> row < h cont \<Longrightarrow>
   render_row E cont step_sz row st = Inr st1 \<Longrightarrow> \<not> pump E row \<Longrightarrow>
   rows_loop E cont step_sz row st = Inr (False, st1)"
  by (subst rows_loop.simps) simp

lemma rows_loop_next:
  "rb_pos st + step_sz < length (fmap E) \<Longrightarrow> row < h cont \<Longrightarrow>
   render_row E cont step_sz row st = Inr st1 \<Longrightarrow> pump E row \<Longrightarrow>
   rows_loop E cont step_sz row st = rows_loop E cont step_sz (Suc row) (mark_edge E cont row st1)"
  by (subst rows_loop.simps) simp

lemma mark_edge_pos: "rb_pos (mark_edge E cont row st) = rb_pos st"
  by (simp add: mark_edge_def)

lemma mark_edge_frame:
  "p < (row + 1) * w cont \<or> (row + 1) * w cont + w cont \<le> p \<Longrightarrow>
   rb_vid (mark_edge E cont row st) p = rb_vid st p"
  by (auto simp: mark_edge_def paint_n_apply)

lemma render_row_pos:
  assumes "render_row E cont step_sz row st = Inr st1"
  shows "rb_pos st1 = rb_pos st + w cont * step_sz \<or> length (fmap E) \<le> rb_pos st1"
proof -
  from assms obtain v d pos where
    px: "px_loop E step_sz (w cont) row 0 (rb_vid st) (rb_dr st) (rb_pos st) = Inr (v, d, pos)"
    and pos: "rb_pos st1 = pos"
    by (rule render_row_cases)
  from px_loop_pos [OF px] pos show ?thesis by simp
qed

lemma render_row_pos_full:
  assumes "render_row E cont step_sz row st = Inr st1"
    and "0 < step_sz" "rb_pos st + w cont * step_sz \<le> length (fmap E)"
  shows "rb_pos st1 = rb_pos st + w cont * step_sz"
proof -
  from assms(1) obtain v d pos where
    px: "px_loop E step_sz (w cont) row 0 (rb_vid st) (rb_dr st) (rb_pos st) = Inr (v, d, pos)"
    and pos: "rb_pos st1 = pos"
    by (rule render_row_cases)
  from px_loop_pos_full [OF px] assms(2,3) pos show ?thesis by simp
qed

lemma rows_loop_ok:
  assumes fits: "step_fits (length (fmap E)) step_sz (w cont * h cont)"
  shows "rb_pos st = row * w cont * step_sz \<or> length (fmap E) \<le> rb_pos st \<Longrightarrow>
         \<exists>ret st'. rows_loop E cont step_sz row st = Inr (ret, st')"
proof (induction n \<equiv> "h cont - row" arbitrary: row st)
  case 0
  then have "\<not> (rb_pos st + step_sz < length (fmap E) \<and> row < h cont)" by simp
  from rows_loop_stop [OF this] show ?case by blast
next
  case (Suc n)
  show ?case
  proof (cases "rb_pos st + step_sz < length (fmap E) \<and> row < h cont")
    case False
    from rows_loop_stop [OF this] show ?thesis by blast
  next
    case True
    then have pos: "rb_pos st = row * w cont * step_sz" using Suc.prems by auto
    from render_row_ok [OF _ fits pos] True
    obtain st1 where st1: "render_row E cont step_sz row st = Inr st1" by blast
    show ?thesis
    proof (cases "pump E row")
      case False
      have "rows_loop E cont step_sz row st = Inr (False, st1)"
        using True st1 False by (intro rows_loop_abort) simp_all
      then show ?thesis by blast
    next
      case pumped: True
      have "rb_pos st1 = rb_pos st + w cont * step_sz \<or> length (fmap E) \<le> rb_pos st1"
        using st1 by (rule render_row_pos)
      then have inv: "rb_pos (mark_edge E cont row st1) = Suc row * w cont * step_sz \<or>
                 length (fmap E) \<le> rb_pos (mark_edge E cont row st1)"
        using pos by (auto simp: mark_edge_pos algebra_simps)
      have "n = h cont - Suc row" using Suc.hyps(2) by simp
      have "rows_loop E cont step_sz row st =
              rows_loop E cont step_sz (Suc row) (mark_edge E cont row st1)"
        using True st1 pumped by (intro rows_loop_next) simp_all
      with Suc.hyps(1) [OF \<open>n = h cont - Suc row\<close> inv]
      show ?thesis by simp
    qed
  qed
qed

text \<open>
  The loop test \<^verbatim>\<open>pos < map_sz\<close> alone does not keep \<^verbatim>\<open>pos + j\<close> in the file: it is
  the step of \<open>rb_step\<close> that does.
\<close>

lemma accum_detailed_guard_alone: "accum_detailed [0, 0, 0] 2 2 0 d = Inl (OutOfBounds 3)"
  by (simp add: accum_detailed.simps)

text \<open>
  C10. No read of \<^verbatim>\<open>map[pos+j]\<close> in the histogram accumulation of
  \<^verbatim>\<open>rebuild_preview\<close> lies at or past the end of the file, for every file, raster and
  mode (the detailed mode in particular): the rebuild never ends in the fault
  \<open>OutOfBounds\<close>.
\<close>

theorem rebuild_preview_reads_in_bounds:
  "rebuild_preview E cont wnd count dr0 cr0 \<noteq> Inl (OutOfBounds k)"
proof (cases "w cont * h cont = 0")
  case True
  then show ?thesis by (simp add: rebuild_preview_def)
next
  case False
  let ?st0 = "\<lparr>rb_vid = paint_n (\<lambda>_. clear_px) (w cont * h cont) 0 (vidp cont),
               rb_dr = dr0, rb_cr = cr0, rb_pos = 0, rb_dirty = False\<rparr>"
  have "rb_pos ?st0 = 0 * w cont * rb_step (length (fmap E)) cont \<or>
        length (fmap E) \<le> rb_pos ?st0"
    by simp
  from rows_loop_ok [OF rb_step_fits this]
  obtain ret st' where
    r: "rows_loop E cont (rb_step (length (fmap E)) cont) 0 ?st0 = Inr (ret, st')"
    by blast
  have u: "update_region ms c wn np cnt \<noteq> Inl (OutOfBounds k)" for ms c wn np cnt
    by (simp add: update_region_def Let_def)
  have "rebuild_preview E cont wnd count dr0 cr0 =
      (if \<not> ret then Inr (False, cont\<lparr>vidp := rb_vid st'\<rparr>, wnd)
       else if rb_dirty st'
       then
         (case update_region (length (fmap E)) (cont\<lparr>vidp := rb_vid st'\<rparr>)
                 (wnd\<lparr>last_pos := 2 ^ 64 - 1\<rparr>) (last_pos wnd) count of
            Inl e \<Rightarrow> Inl e
          | Inr (c1, w1) \<Rightarrow> Inr (True, c1, w1))
       else Inr (True, cont\<lparr>vidp := rb_vid st'\<rparr>, wnd))"
    using False r by (simp add: rebuild_preview_def Let_def)
  then show ?thesis
    using u [of "length (fmap E)" "cont\<lparr>vidp := rb_vid st'\<rparr>"
               "wnd\<lparr>last_pos := 2 ^ 64 - 1\<rparr>" "last_pos wnd" count]
    by (auto split: sum.splits)
qed

lemma rows_le:
  fixes row k W s :: nat
  shows "row \<le> k \<Longrightarrow> row * W * s \<le> k * W * s"
  by (intro mult_le_mono1)

lemma rows_loop_cancel:
  assumes fits: "step_fits (length (fmap E)) step_sz (w cont * h cont)"
    and spos: "0 < step_sz"
    and kh: "k < h cont"
    and reach: "k * w cont * step_sz + step_sz < length (fmap E)"
    and pumped: "\<forall>r<k. pump E r" and stopped: "\<not> pump E k"
  shows "row \<le> k \<Longrightarrow> rb_pos st = row * w cont * step_sz \<Longrightarrow>
    \<exists>st'. rows_loop E cont step_sz row st = Inr (False, st') \<and>
      (\<forall>p. (k + 1) * w cont \<le> p \<longrightarrow> rb_vid st' p = rb_vid st p) \<and>
      (\<forall>p. p < row * w cont \<longrightarrow> rb_vid st' p = rb_vid st p) \<and>
      (\<forall>r j. row \<le> r \<and> r \<le> k \<and> j < w cont \<and>
             (r * w cont + j) * step_sz < length (fmap E) \<longrightarrow>
         rb_vid st' (r * w cont + j) = row_px E cont step_sz r j \<or>
         rb_vid st' (r * w cont + j) = row_px E cont step_sz r j OR tint_px)"
proof (induction n \<equiv> "k - row" arbitrary: row st)
  case 0
  then have rk: "row = k" by simp
  have cond: "rb_pos st + step_sz < length (fmap E)" "row < h cont"
    using reach kh "0.prems"(2) rk by simp_all
  from render_row_ok [OF cond(2) fits "0.prems"(2)]
  obtain st1 where st1: "render_row E cont step_sz row st = Inr st1" by blast
  have res: "rows_loop E cont step_sz row st = Inr (False, st1)"
    using cond st1 stopped rk by (intro rows_loop_abort) simp_all
  have f1: "rb_vid st1 p = rb_vid st p" if "(k + 1) * w cont \<le> p" for p
    using that rk by (intro render_row_frame [OF st1]) simp
  have f2: "rb_vid st1 p = rb_vid st p" if "p < row * w cont" for p
    using that by (intro render_row_frame [OF st1]) simp
  have f3: "rb_vid st1 (r * w cont + j) = row_px E cont step_sz r j \<or>
            rb_vid st1 (r * w cont + j) = row_px E cont step_sz r j OR tint_px"
    if "row \<le> r \<and> r \<le> k \<and> j < w cont \<and> (r * w cont + j) * step_sz < length (fmap E)"
    for r j
  proof -
    have r: "r = row" using that rk by simp
    have e: "rb_pos st + j * step_sz = (r * w cont + j) * step_sz"
      using "0.prems"(2) r by (simp add: algebra_simps)
    from render_row_pixels [OF st1, of j] that e
    show ?thesis by (simp add: row_px_def r)
  qed
  from res f1 f2 f3 show ?case by blast
next
  case (Suc n)
  then have lt: "row < k" by simp
  have le1: "Suc row * w cont * step_sz \<le> k * w cont * step_sz"
    using lt by (intro rows_le) simp
  have le0: "row * w cont * step_sz \<le> k * w cont * step_sz"
    using lt by (intro rows_le) simp
  have cond: "rb_pos st + step_sz < length (fmap E)" "row < h cont"
  proof -
    show "rb_pos st + step_sz < length (fmap E)"
      using reach Suc.prems(2) le0 by linarith
    show "row < h cont" using kh lt by simp
  qed
  from render_row_ok [OF cond(2) fits Suc.prems(2)]
  obtain st1 where st1: "render_row E cont step_sz row st = Inr st1" by blast
  have sr: "rb_pos st + w cont * step_sz = Suc row * w cont * step_sz"
    using Suc.prems(2) by (simp add: algebra_simps)
  have full: "rb_pos st + w cont * step_sz \<le> length (fmap E)"
    using le1 reach sr by linarith
  have pos1: "rb_pos st1 = Suc row * w cont * step_sz"
    using render_row_pos_full [OF st1 spos full] sr by simp
  let ?st2 = "mark_edge E cont row st1"
  have nxt: "rows_loop E cont step_sz row st = rows_loop E cont step_sz (Suc row) ?st2"
    using cond st1 pumped lt by (intro rows_loop_next) simp_all
  have pos2: "rb_pos ?st2 = Suc row * w cont * step_sz"
    using pos1 by (simp add: mark_edge_pos)
  have "n = k - Suc row" "Suc row \<le> k" using Suc.hyps(2) lt by simp_all
  from Suc.hyps(1) [OF this pos2]
  obtain st' where
    res: "rows_loop E cont step_sz (Suc row) ?st2 = Inr (False, st')" and
    i1: "\<And>p. (k + 1) * w cont \<le> p \<Longrightarrow> rb_vid st' p = rb_vid ?st2 p" and
    i2: "\<And>p. p < Suc row * w cont \<Longrightarrow> rb_vid st' p = rb_vid ?st2 p" and
    i3: "\<And>r j. Suc row \<le> r \<and> r \<le> k \<and> j < w cont \<and>
             (r * w cont + j) * step_sz < length (fmap E) \<Longrightarrow>
         rb_vid st' (r * w cont + j) = row_px E cont step_sz r j \<or>
         rb_vid st' (r * w cont + j) = row_px E cont step_sz r j OR tint_px"
    by blast
  have below: "rb_vid ?st2 p = rb_vid st1 p" if "p < Suc row * w cont" for p
    using that by (intro mark_edge_frame) simp
  have f1: "rb_vid st' p = rb_vid st p" if "(k + 1) * w cont \<le> p" for p
  proof -
    have "(row + 2) * w cont \<le> (k + 1) * w cont"
      using lt by (intro mult_le_mono1) simp
    then have far: "(row + 1) * w cont + w cont \<le> p" using that by simp
    have "rb_vid st' p = rb_vid ?st2 p" using that by (rule i1)
    also have "\<dots> = rb_vid st1 p" using far by (intro mark_edge_frame) simp
    also have "\<dots> = rb_vid st p" using far by (intro render_row_frame [OF st1]) simp
    finally show ?thesis .
  qed
  have f2: "rb_vid st' p = rb_vid st p" if "p < row * w cont" for p
  proof -
    have "rb_vid st' p = rb_vid ?st2 p" using that by (intro i2) simp
    also have "\<dots> = rb_vid st1 p" using that by (intro below) simp
    also have "\<dots> = rb_vid st p" using that by (intro render_row_frame [OF st1]) simp
    finally show ?thesis .
  qed
  have f3: "rb_vid st' (r * w cont + j) = row_px E cont step_sz r j \<or>
            rb_vid st' (r * w cont + j) = row_px E cont step_sz r j OR tint_px"
    if c: "row \<le> r \<and> r \<le> k \<and> j < w cont \<and> (r * w cont + j) * step_sz < length (fmap E)"
    for r j
  proof (cases "r = row")
    case False
    then show ?thesis using c by (intro i3) simp
  next
    case True
    have in_row: "row * w cont + j < Suc row * w cont" using c by simp
    have e: "rb_pos st + j * step_sz = (row * w cont + j) * step_sz"
      using Suc.prems(2) by (simp add: algebra_simps)
    have "rb_vid st' (row * w cont + j) = rb_vid ?st2 (row * w cont + j)"
      using in_row by (rule i2)
    also have "\<dots> = rb_vid st1 (row * w cont + j)" using in_row by (rule below)
    finally have "rb_vid st' (row * w cont + j) = rb_vid st1 (row * w cont + j)" .
    moreover from render_row_pixels [OF st1, of j] c e True
    have "rb_vid st1 (row * w cont + j) = row_px E cont step_sz row j \<or>
          rb_vid st1 (row * w cont + j) = row_px E cont step_sz row j OR tint_px"
      by (simp add: row_px_def)
    ultimately show ?thesis using True by simp
  qed
  from res nxt f1 f2 f3 show ?case by (simp only:) blast
qed

text \<open>
  C5. When the pump returns true at the rows before \<open>k\<close> and false at row \<open>k\<close>, and the
  loop reaches row \<open>k\<close>, the rebuild returns false with the window untouched; every pixel
  of rows \<open>k + 1\<close> to \<open>h - 1\<close> holds the clear colour, and every pixel of rows 0 to \<open>k\<close>
  whose source byte lies in the file holds the value written for it, tinted or not.
\<close>

theorem rebuild_preview_cancel:
  assumes "w cont * h cont \<noteq> 0" and "k < h cont"
    and "k * w cont * rb_step (length (fmap E)) cont + rb_step (length (fmap E)) cont
           < length (fmap E)"
    and "\<forall>r<k. pump E r" and "\<not> pump E k"
  shows "\<exists>c'. rebuild_preview E cont wnd count dr0 cr0 = Inr (False, c', wnd) \<and>
    (\<forall>p. (k + 1) * w cont \<le> p \<and> p < w cont * h cont \<longrightarrow> vidp c' p = clear_px) \<and>
    (\<forall>r j. r \<le> k \<and> j < w cont \<and>
           (r * w cont + j) * rb_step (length (fmap E)) cont < length (fmap E) \<longrightarrow>
       vidp c' (r * w cont + j) = row_px E cont (rb_step (length (fmap E)) cont) r j \<or>
       vidp c' (r * w cont + j) = row_px E cont (rb_step (length (fmap E)) cont) r j OR tint_px)"
proof -
  let ?step = "rb_step (length (fmap E)) cont"
  define st0 where "st0 = \<lparr>rb_vid = paint_n (\<lambda>_. clear_px) (w cont * h cont) 0 (vidp cont),
               rb_dr = dr0, rb_cr = cr0, rb_pos = 0, rb_dirty = False\<rparr>"
  have p0: "rb_pos st0 = 0 * w cont * ?step" by (simp add: st0_def)
  have v0: "rb_vid st0 = paint_n (\<lambda>_. clear_px) (w cont * h cont) 0 (vidp cont)"
    by (simp add: st0_def)
  have k0: "0 \<le> k" by simp
  note c = rows_loop_cancel [OF rb_step_fits rb_step_pos assms(2,3,4,5) k0 p0]
  from c obtain st' where
    res: "rows_loop E cont ?step 0 st0 = Inr (False, st')" and
    a1: "\<forall>p. (k + 1) * w cont \<le> p \<longrightarrow> rb_vid st' p = rb_vid st0 p" and
    a3: "\<forall>r j. 0 \<le> r \<and> r \<le> k \<and> j < w cont \<and>
             (r * w cont + j) * ?step < length (fmap E) \<longrightarrow>
         rb_vid st' (r * w cont + j) = row_px E cont ?step r j \<or>
         rb_vid st' (r * w cont + j) = row_px E cont ?step r j OR tint_px"
    by (elim exE conjE)
  have i1: "rb_vid st' p = rb_vid st0 p" if "(k + 1) * w cont \<le> p" for p
    using a1 that by (elim allE impE)
  have i3: "rb_vid st' (r * w cont + j) = row_px E cont ?step r j \<or>
         rb_vid st' (r * w cont + j) = row_px E cont ?step r j OR tint_px"
    if "0 \<le> r \<and> r \<le> k \<and> j < w cont \<and> (r * w cont + j) * ?step < length (fmap E)" for r j
    using a3 that by (elim allE impE)
  have ret: "rebuild_preview E cont wnd count dr0 cr0 = Inr (False, cont\<lparr>vidp := rb_vid st'\<rparr>, wnd)"
    using assms(1) res by (simp add: rebuild_preview_def Let_def st0_def)
  have clear: "vidp (cont\<lparr>vidp := rb_vid st'\<rparr>) p = clear_px"
    if "(k + 1) * w cont \<le> p \<and> p < w cont * h cont" for p
  proof -
    have "rb_vid st' p = rb_vid st0 p" using that by (intro i1) simp
    also have "\<dots> = clear_px" using that by (simp add: v0 paint_n_apply)
    finally show ?thesis by simp
  qed
  have written: "vidp (cont\<lparr>vidp := rb_vid st'\<rparr>) (r * w cont + j) = row_px E cont ?step r j \<or>
       vidp (cont\<lparr>vidp := rb_vid st'\<rparr>) (r * w cont + j) = row_px E cont ?step r j OR tint_px"
    if "r \<le> k \<and> j < w cont \<and> (r * w cont + j) * ?step < length (fmap E)" for r j
    using i3 [of r j] that by simp
  show ?thesis
  proof (intro exI conjI allI impI)
    show "rebuild_preview E cont wnd count dr0 cr0 = Inr (False, cont\<lparr>vidp := rb_vid st'\<rparr>, wnd)"
      by (rule ret)
  next
    fix p assume "(k + 1) * w cont \<le> p \<and> p < w cont * h cont"
    then show "vidp (cont\<lparr>vidp := rb_vid st'\<rparr>) p = clear_px" by (rule clear)
  next
    fix r j
    assume "r \<le> k \<and> j < w cont \<and> (r * w cont + j) * ?step < length (fmap E)"
    then show "vidp (cont\<lparr>vidp := rb_vid st'\<rparr>) (r * w cont + j) = row_px E cont ?step r j \<or>
       vidp (cont\<lparr>vidp := rb_vid st'\<rparr>) (r * w cont + j) = row_px E cont ?step r j OR tint_px"
      by (rule written)
  qed
qed



theorem rebuild_preview_cancel_witness:
  "\<exists>c'. rebuild_preview cancel_env cancel_cont fresh_wnd 0 hist_zero hist_zero
           = Inr (False, c', fresh_wnd) \<and>
     \<not> pump cancel_env 1 \<and> pump cancel_env 0 \<and>
     vidp c' 4 = clear_px \<and> vidp c' 5 = clear_px \<and>
     (vidp c' 3 = row_px cancel_env cancel_cont 2 1 1 \<or>
      vidp c' 3 = row_px cancel_env cancel_cont 2 1 1 OR tint_px)"
proof -
  have s: "rb_step (length (fmap cancel_env)) cancel_cont = 2"
    by (simp add: rb_step_def cancel_env_def cancel_cont_def)
  have wh: "w cancel_cont = 2" "h cancel_cont = 3" by (simp_all add: cancel_cont_def)
  have len: "length (fmap cancel_env) = 13" by (simp add: cancel_env_def)
  have a1: "w cancel_cont * h cancel_cont \<noteq> 0" by (simp add: wh)
  have a2: "1 < h cancel_cont" by (simp add: wh)
  have a3: "1 * w cancel_cont * rb_step (length (fmap cancel_env)) cancel_cont
              + rb_step (length (fmap cancel_env)) cancel_cont < length (fmap cancel_env)"
    unfolding s by (simp add: wh len)
  have a4: "\<forall>r<1. pump cancel_env r" by (simp add: cancel_env_def)
  have a5: "\<not> pump cancel_env 1" by (simp add: cancel_env_def)
  note t = rebuild_preview_cancel [OF a1 a2 a3 a4 a5, of fresh_wnd 0 hist_zero hist_zero]
  from t obtain c' where
    r: "rebuild_preview cancel_env cancel_cont fresh_wnd 0 hist_zero hist_zero
           = Inr (False, c', fresh_wnd)" and
    c: "\<forall>p. (1 + 1) * w cancel_cont \<le> p \<and> p < w cancel_cont * h cancel_cont \<longrightarrow>
           vidp c' p = clear_px" and
    g: "\<forall>r j. r \<le> 1 \<and> j < w cancel_cont \<and>
           (r * w cancel_cont + j) * rb_step (length (fmap cancel_env)) cancel_cont
             < length (fmap cancel_env) \<longrightarrow>
       vidp c' (r * w cancel_cont + j)
          = row_px cancel_env cancel_cont (rb_step (length (fmap cancel_env)) cancel_cont) r j \<or>
       vidp c' (r * w cancel_cont + j)
          = row_px cancel_env cancel_cont (rb_step (length (fmap cancel_env)) cancel_cont) r j
              OR tint_px"
    by (elim exE conjE)
  have p4: "vidp c' 4 = clear_px" using c [rule_format, of 4] by (simp add: wh)
  have p5: "vidp c' 5 = clear_px" using c [rule_format, of 5] by (simp add: wh)
  have s13: "rb_step 13 cancel_cont = 2" using s by (simp add: len)
  have p3: "vidp c' 3 = row_px cancel_env cancel_cont 2 1 1 \<or>
      vidp c' 3 = row_px cancel_env cancel_cont 2 1 1 OR tint_px"
    using g [rule_format, of 1 1] by (simp add: wh len s13)
  have p0: "pump cancel_env 0" by (simp add: cancel_env_def)
  from r a5 p0 p4 p5 p3 show ?thesis by (intro exI conjI)
qed

lemma zeros_row:
  "pos < 3 \<Longrightarrow> render_row (zeros_env lt) raster2 1 row
     \<lparr>rb_vid = v, rb_dr = d, rb_cr = c, rb_pos = pos, rb_dirty = b\<rparr> =
   Inr \<lparr>rb_vid = (if lt (hist_inc (hist_inc d 0) 0) c 2
                   then paint_n (\<lambda>p. p OR tint_px) 2 (row * 2)
                          (v(row * 2 := SHMIF_RGBA 0 0 0 0xff, row * 2 + 1 := SHMIF_RGBA 0 0 0 0xff))
                   else v(row * 2 := SHMIF_RGBA 0 0 0 0xff, row * 2 + 1 := SHMIF_RGBA 0 0 0 0xff)),
         rb_dr = hist_zero, rb_cr = hist_inc (hist_inc d 0) 0, rb_pos = pos + 2, rb_dirty = True\<rparr>"
  by (simp add: render_row_def px_loop.simps zeros_env_def raster2_def nth_Cons'
        del: fun_upd_apply paint_n.simps)

text \<open>The raster after row 0 and after row 1 of the four zero bytes.\<close>

lemma zeros_rows:
  fixes lt dr0 cr0 v
  defines "v1 \<equiv> (if lt (hist_inc (hist_inc dr0 0) 0) cr0 2
                   then paint_n (\<lambda>p. p OR tint_px) 2 (0 * 2)
                          (v(0 * 2 := SHMIF_RGBA 0 0 0 0xff, 0 * 2 + 1 := SHMIF_RGBA 0 0 0 0xff))
                   else v(0 * 2 := SHMIF_RGBA 0 0 0 0xff, 0 * 2 + 1 := SHMIF_RGBA 0 0 0 0xff))"
  defines "v2 \<equiv> (if lt (hist_inc (hist_inc hist_zero 0) 0) (hist_inc (hist_inc dr0 0) 0) 2
            then paint_n (\<lambda>p. p OR tint_px) 2 (1 * 2)
                   (v1(1 * 2 := SHMIF_RGBA 0 0 0 0xff, 1 * 2 + 1 := SHMIF_RGBA 0 0 0 0xff))
            else v1(1 * 2 := SHMIF_RGBA 0 0 0 0xff, 1 * 2 + 1 := SHMIF_RGBA 0 0 0 0xff))"
  shows "rows_loop (zeros_env lt) raster2 1 0
     \<lparr>rb_vid = v, rb_dr = dr0, rb_cr = cr0, rb_pos = 0, rb_dirty = False\<rparr> =
   Inr (True, \<lparr>rb_vid = v2, rb_dr = hist_zero, rb_cr = hist_inc (hist_inc hist_zero 0) 0,
                rb_pos = 4, rb_dirty = True\<rparr>)"
proof -
  let ?E = "zeros_env lt"
  let ?st0 = "\<lparr>rb_vid = v, rb_dr = dr0, rb_cr = cr0, rb_pos = 0, rb_dirty = False\<rparr>"
  let ?st1 = "\<lparr>rb_vid = v1, rb_dr = hist_zero, rb_cr = hist_inc (hist_inc dr0 0) 0,
               rb_pos = 2, rb_dirty = True\<rparr>"
  let ?st2 = "\<lparr>rb_vid = v2, rb_dr = hist_zero, rb_cr = hist_inc (hist_inc hist_zero 0) 0,
               rb_pos = 4, rb_dirty = True\<rparr>"
  have e: "length (fmap ?E) = 4" "pump ?E = (\<lambda>row. True)" "h raster2 = 2"
    "timer ?E = (\<lambda>row. False)"
    by (simp_all add: zeros_env_def raster2_def)
  have r0: "render_row ?E raster2 1 0 ?st0 = Inr ?st1"
    unfolding v1_def by (subst zeros_row) simp_all
  have r1: "render_row ?E raster2 1 (Suc 0) ?st1 = Inr ?st2"
    unfolding v2_def by (subst zeros_row) simp_all
  have m: "mark_edge ?E raster2 row st = st" for row st
    by (simp add: mark_edge_def e)
  have "rows_loop ?E raster2 1 0 ?st0 = rows_loop ?E raster2 1 (Suc 0) (mark_edge ?E raster2 0 ?st1)"
    by (rule rows_loop_next [OF _ _ r0]) (simp_all add: e)
  also have "\<dots> = rows_loop ?E raster2 1 (Suc 0) ?st1" by (simp only: m)
  also have "\<dots> = rows_loop ?E raster2 1 (Suc (Suc 0)) (mark_edge ?E raster2 (Suc 0) ?st2)"
    by (rule rows_loop_next [OF _ _ r1]) (simp_all add: e)
  also have "\<dots> = rows_loop ?E raster2 1 (Suc (Suc 0)) ?st2" by (simp only: m)
  also have "\<dots> = Inr (True, ?st2)"
    by (rule rows_loop_stop) (simp add: e)
  finally show ?thesis .
qed


text \<open>
  C1. The claim: with edge detection on, the histogram of every row starts from zero, the
  histogram of a row is the previous histogram of the next comparison, and row 0 is never
  tinted. \<^verbatim>\<open>dr\<close> and \<^verbatim>\<open>cr\<close> are not initialised and row 0 is compared like every other
  row: for a file of four zero bytes on a raster of 2 by 2 pixels, row 0 is tinted exactly
  when the comparison of \<open>dr0\<close> plus the two samples of the row with \<open>cr0\<close> falls below
  the cutoff, and row 1 is compared with that same histogram, \<open>dr0\<close> included.
\<close>

theorem rebuild_preview_first_row_compared:
  "\<exists>c'. rebuild_preview (zeros_env lt) raster2 fresh_wnd 0 dr0 cr0 = Inr (True, c', fresh_wnd) \<and>
     vidp c' 0 = (if lt (hist_inc (hist_inc dr0 0) 0) cr0 2
                  then SHMIF_RGBA 0 0 0 0xff OR tint_px else SHMIF_RGBA 0 0 0 0xff) \<and>
     vidp c' 2 = (if lt (hist_inc (hist_inc hist_zero 0) 0) (hist_inc (hist_inc dr0 0) 0) 2
                  then SHMIF_RGBA 0 0 0 0xff OR tint_px else SHMIF_RGBA 0 0 0 0xff)"
proof -
  let ?E = "zeros_env lt"
  define v where "v = paint_n (\<lambda>_. clear_px) (w raster2 * h raster2) 0 (vidp raster2)"
  define v1 where "v1 = (if lt (hist_inc (hist_inc dr0 0) 0) cr0 2
                   then paint_n (\<lambda>p. p OR tint_px) 2 (0 * 2)
                          (v(0 * 2 := SHMIF_RGBA 0 0 0 0xff, 0 * 2 + 1 := SHMIF_RGBA 0 0 0 0xff))
                   else v(0 * 2 := SHMIF_RGBA 0 0 0 0xff, 0 * 2 + 1 := SHMIF_RGBA 0 0 0 0xff))"
  define v2 where "v2 = (if lt (hist_inc (hist_inc hist_zero 0) 0) (hist_inc (hist_inc dr0 0) 0) 2
            then paint_n (\<lambda>p. p OR tint_px) 2 (1 * 2)
                   (v1(1 * 2 := SHMIF_RGBA 0 0 0 0xff, 1 * 2 + 1 := SHMIF_RGBA 0 0 0 0xff))
            else v1(1 * 2 := SHMIF_RGBA 0 0 0 0xff, 1 * 2 + 1 := SHMIF_RGBA 0 0 0 0xff))"
  have step: "rb_step (length (fmap ?E)) raster2 = 1"
    by (simp add: rb_step_def zeros_env_def raster2_def)
  have rows: "rows_loop ?E raster2 1 0
     \<lparr>rb_vid = v, rb_dr = dr0, rb_cr = cr0, rb_pos = 0, rb_dirty = False\<rparr> =
   Inr (True, \<lparr>rb_vid = v2, rb_dr = hist_zero, rb_cr = hist_inc (hist_inc hist_zero 0) 0,
                rb_pos = 4, rb_dirty = True\<rparr>)"
    unfolding v2_def v1_def by (rule zeros_rows)
  have wnd: "fresh_wnd\<lparr>last_pos := 2 ^ 64 - 1\<rparr> = fresh_wnd" "last_pos fresh_wnd = 2 ^ 64 - 1"
    by (simp_all add: fresh_wnd_def)
  have upd: "update_region (length (fmap ?E)) (raster2\<lparr>vidp := v2\<rparr>) fresh_wnd (2 ^ 64 - 1) 0
               = Inr (raster2\<lparr>vidp := v2\<rparr>, fresh_wnd)"
    by (simp add: update_region_def raster2_def wnd)
  have wh: "w raster2 * h raster2 \<noteq> 0" by (simp add: raster2_def)
  have ret: "rebuild_preview ?E raster2 fresh_wnd 0 dr0 cr0
               = Inr (True, raster2\<lparr>vidp := v2\<rparr>, fresh_wnd)"
    unfolding rebuild_preview_def Let_def step v_def [symmetric]
    using wh by (simp only: rows wnd upd if_False if_True sum.case prod.case rb_state.simps
                   simp_thms)
  have p0: "v2 0 = v1 0" by (simp add: v2_def paint_n_apply)
  have p0': "v1 0 = (if lt (hist_inc (hist_inc dr0 0) 0) cr0 2
                  then SHMIF_RGBA 0 0 0 0xff OR tint_px else SHMIF_RGBA 0 0 0 0xff)"
    by (simp add: v1_def paint_n_apply)
  have p2: "v2 2 = (if lt (hist_inc (hist_inc hist_zero 0) 0) (hist_inc (hist_inc dr0 0) 0) 2
                  then SHMIF_RGBA 0 0 0 0xff OR tint_px else SHMIF_RGBA 0 0 0 0xff)"
    by (simp add: v2_def paint_n_apply)
  show ?thesis
  proof (intro exI conjI)
    show "rebuild_preview ?E raster2 fresh_wnd 0 dr0 cr0
               = Inr (True, raster2\<lparr>vidp := v2\<rparr>, fresh_wnd)" by (rule ret)
    show "vidp (raster2\<lparr>vidp := v2\<rparr>) 0 = (if lt (hist_inc (hist_inc dr0 0) 0) cr0 2
                  then SHMIF_RGBA 0 0 0 0xff OR tint_px else SHMIF_RGBA 0 0 0 0xff)"
      using p0 p0' by simp
    show "vidp (raster2\<lparr>vidp := v2\<rparr>) 2 =
            (if lt (hist_inc (hist_inc hist_zero 0) 0) (hist_inc (hist_inc dr0 0) 0) 2
                  then SHMIF_RGBA 0 0 0 0xff OR tint_px else SHMIF_RGBA 0 0 0 0xff)"
      using p2 by simp
  qed
qed

end
